theory Spec2Isabelle
  imports Main "HOL-Library.Word" "HOL-Library.Multiset" "HOL-Library.Monad_Syntax"
begin

section \<open>Host side of the BFS on processing-in-memory units (bfs.c)\<close>

text \<open>
  The host program partitions a graph over a set of DPUs, converts each partition to the
  sparse format of the selected kernel, drives the BFS rounds and merges the node levels.
  All integers of the source are \<^verbatim>\<open>uint32_t\<close> unless stated otherwise and are modelled as
  32-bit words, so that every \<open>+\<close>, \<open>-\<close> and \<open>*\<close> wraps as in C. Arrays are lists; an access
  outside an array, a division by zero and a dereferenced null pointer are undefined
  behaviour in C and are the value \<open>None\<close> here.
\<close>

type_synonym u32 = "32 word"
type_synonym size_t = "64 word"
type_synonym mram_addr_t = "32 word"

subsection \<open>Array accesses, division and counted loops\<close>

text \<open>
  \<open>rd\<close> and \<open>wr\<close> read and write one cell of an array and fail outside it; \<open>udiv\<close> and
  \<open>umod\<close> are \<^verbatim>\<open>/\<close> and \<^verbatim>\<open>%\<close> on \<^verbatim>\<open>uint32_t\<close> and fail on a zero divisor.
\<close>

definition rd :: "'a list \<Rightarrow> nat \<Rightarrow> 'a option" where
  "rd xs i = (if i < length xs then Some (xs ! i) else None)"

definition wr :: "'a list \<Rightarrow> nat \<Rightarrow> 'a \<Rightarrow> 'a list option" where
  "wr xs i v = (if i < length xs then Some (xs[i := v]) else None)"

definition udiv :: "u32 \<Rightarrow> u32 \<Rightarrow> u32 option" where
  "udiv a b = (if b = 0 then None else Some (a div b))"

definition umod :: "u32 \<Rightarrow> u32 \<Rightarrow> u32 option" where
  "umod a b = (if b = 0 then None else Some (a mod b))"

text \<open>
  \<open>for_loop is body s\<close> runs \<open>body\<close> for the values \<open>is\<close> of the loop counter in order,
  threading the state, and stops with \<open>None\<close> as soon as one iteration fails. The counted
  loops of the source run their counter from 0 up to a 32-bit bound, so the counter itself
  never wraps.
\<close>

fun for_loop :: "nat list \<Rightarrow> (nat \<Rightarrow> 's \<Rightarrow> 's option) \<Rightarrow> 's \<Rightarrow> 's option" where
  "for_loop [] body s = Some s"
| "for_loop (i # is) body s = (case body i s of None \<Rightarrow> None | Some s' \<Rightarrow> for_loop is body s')"

subsection \<open>Data model\<close>

text \<open>
  The enumerations and matrix structures of the source; \<^verbatim>\<open>_2D\<close> is written \<open>P2D\<close>. A
  pointer to an array is the list of the array's cells. The fields of \<^verbatim>\<open>struct CSR\<close> that
  share a name with \<^verbatim>\<open>struct COO\<close> carry the prefix \<open>csr_\<close>. A failure is either
  \<^verbatim>\<open>exit(1)\<close> after an error message or undefined behaviour.
\<close>

datatype Algorithm = TopDown | BottomUp | Edge

datatype Partition = Row | Col | P2D

record COO =
  num_rows :: u32
  num_cols :: u32
  num_edges :: u32
  row_idxs :: "u32 list"
  col_idxs :: "u32 list"

record CSR =
  csr_num_rows :: u32
  csr_num_cols :: u32
  csr_num_edges :: u32
  row_ptrs :: "u32 list"
  csr_col_idxs :: "u32 list"

datatype failure = Exit1 string | Undefined_Behaviour

subsection \<open>dpu_insert_mram_array_u32\<close>

text \<open>
  The part of a DPU that the host's bump allocation reads and writes: the variable
  \<^verbatim>\<open>p_used_mram_end\<close>, the pointer variables named by symbols, and the copies made to MRAM
  (address, source buffer, number of bytes). \<^verbatim>\<open>mram_addr_t\<close> is the SDK's 32-bit address
  type and \<^verbatim>\<open>size_t\<close> has 64 bits on the host. A null \<^verbatim>\<open>src\<close> is \<open>None\<close>.
\<close>

record dpu_state =
  p_used_mram_end :: mram_addr_t
  symbols :: "string \<rightharpoonup> mram_addr_t"
  mram_copies :: "(mram_addr_t \<times> u32 list \<times> size_t) list"

definition insert_size :: "u32 \<Rightarrow> size_t" where
  "insert_size len = (let size = ucast len * 4 in size + size mod 8)"

definition dpu_insert_mram_array_u32 ::
  "dpu_state \<Rightarrow> string \<Rightarrow> u32 list option \<Rightarrow> u32 \<Rightarrow> dpu_state" where
  "dpu_insert_mram_array_u32 dpu symbol_name src len =
     (let src' = (case src of None \<Rightarrow> replicate (unat len) 0 | Some buf \<Rightarrow> buf);
          p = p_used_mram_end dpu;
          size = insert_size len
      in dpu\<lparr> symbols := (symbols dpu)(symbol_name \<mapsto> p),
               mram_copies := mram_copies dpu @ [(p, src', size)],
               p_used_mram_end := p + ucast size \<rparr>)"

fun dpu_insert_all :: "(string \<times> u32 list option \<times> u32) list \<Rightarrow> dpu_state \<Rightarrow> dpu_state" where
  "dpu_insert_all [] dpu = dpu"
| "dpu_insert_all ((symbol_name, src, len) # rest) dpu =
     dpu_insert_all rest (dpu_insert_mram_array_u32 dpu symbol_name src len)"

subsection \<open>nearest_factors\<close>

text \<open>
  \<^verbatim>\<open>(uint32_t)sqrt(n)\<close> is the integer part of the square root: the C library rounds the
  square root of a 32-bit number correctly to a double, which never reaches the next
  integer. \<open>sqrt_search n n\<close> computes it by search from above. The loop
  \<^verbatim>\<open>while (n % f != 0) f--\<close> divides by \<open>f\<close>, which is 0 only when \<open>n\<close> is 0.
\<close>

fun sqrt_search :: "nat \<Rightarrow> nat \<Rightarrow> nat" where
  "sqrt_search n 0 = 0"
| "sqrt_search n (Suc k) = (if Suc k * Suc k \<le> n then Suc k else sqrt_search n k)"

definition sqrt_u32 :: "u32 \<Rightarrow> u32" where
  "sqrt_u32 n = of_nat (sqrt_search (unat n) (unat n))"

function nearest_factors_loop :: "u32 \<Rightarrow> u32 \<Rightarrow> u32 option" where
  "nearest_factors_loop n f =
     (if f = 0 then None
      else if n mod f \<noteq> 0 then nearest_factors_loop n (f - 1)
      else Some f)"
  by pat_completeness auto
termination
  by (relation "measure (\<lambda>(n, f). unat f)") (auto simp: unat_minus_one unat_gt_0)

declare nearest_factors_loop.simps [simp del]

definition nearest_factors :: "u32 \<Rightarrow> (u32 \<times> u32) option" where
  "nearest_factors n = map_option (\<lambda>f. (f, n div f)) (nearest_factors_loop n (sqrt_u32 n))"

subsection \<open>parse_args and the start of main\<close>

text \<open>
  \<^verbatim>\<open>parse_args\<close> receives pointers to the variables of \<^verbatim>\<open>main\<close>; only \<^verbatim>\<open>num_dpu\<close> is compared
  as a pointer, so it is modelled as one (\<open>Null\<close> or a cell with its content) and the others
  by their contents. The C library's \<^verbatim>\<open>getopt\<close> with the option string \<^verbatim>\<open>n:a:p:o:\<close> is
  taken as given: it yields, call by call, an option character with its argument or
  \<^verbatim>\<open>'?'\<close>, and leaves the operands behind. \<^verbatim>\<open>atoi\<close> is the GNU C library's
  \<^verbatim>\<open>(int) strtol (nptr, NULL, 10)\<close>: \<^verbatim>\<open>strtol\<close> skips white space, reads an optional sign and
  the decimal digits that follow, and saturates at the bounds of the 64-bit \<^verbatim>\<open>long\<close>; the
  cast keeps the low 32 bits as a signed \<^verbatim>\<open>int\<close>, which the assignment to \<^verbatim>\<open>*num_dpu\<close>
  converts to \<^verbatim>\<open>uint32_t\<close>.
\<close>

datatype 'a ptr = Null | Ptr 'a

datatype getopt_result = Opt char string | Unrecognised

record args =
  arg_num_dpu :: "u32 ptr"
  arg_alg :: Algorithm
  arg_prt :: Partition
  arg_bin_path :: "string option"
  arg_file :: "string option"
  arg_out_file :: "string option"

definition isspace :: "char \<Rightarrow> bool" where
  "isspace c = (c = CHR '' '' \<or> (9 \<le> (of_char c :: nat) \<and> (of_char c :: nat) \<le> 13))"

definition isdigit :: "char \<Rightarrow> bool" where
  "isdigit c = (48 \<le> (of_char c :: nat) \<and> (of_char c :: nat) \<le> 57)"

fun atoi_digits :: "string \<Rightarrow> int \<Rightarrow> int" where
  "atoi_digits [] acc = acc"
| "atoi_digits (c # cs) acc =
     (if isdigit c then atoi_digits cs (10 * acc + (of_char c - 48)) else acc)"

definition strtol :: "string \<Rightarrow> int" where
  "strtol s =
     (let v = (case dropWhile isspace s of
                 [] \<Rightarrow> 0
               | c # cs \<Rightarrow>
                   if c = CHR ''-'' then - atoi_digits cs 0
                   else if c = CHR ''+'' then atoi_digits cs 0
                   else atoi_digits (c # cs) 0)
      in if v < - 9223372036854775808 then - 9223372036854775808
         else if 9223372036854775807 < v then 9223372036854775807
         else v)"

definition atoi :: "string \<Rightarrow> int" where
  "atoi s = sint (word_of_int (strtol s) :: 32 word)"

fun parse_opt :: "getopt_result \<Rightarrow> args \<times> bool \<Rightarrow> failure + args \<times> bool" where
  "parse_opt (Opt c optarg) (a, is_prt_set) =
     (if c = CHR ''n'' then
        (case arg_num_dpu a of
           Null \<Rightarrow> Inl Undefined_Behaviour
         | Ptr _ \<Rightarrow>
             let v = (word_of_int (atoi optarg) :: u32);
                 a' = a\<lparr>arg_num_dpu := Ptr v\<rparr>
             in if arg_num_dpu a' = Null \<or> v mod 8 \<noteq> 0
                then Inl (Exit1 ''Number of DPUs must be a multiple of 8.'')
                else Inr (a', is_prt_set))
      else if c = CHR ''a'' then
        (if optarg = ''top'' then
           Inr (a\<lparr>arg_bin_path := Some ''bin/top-down-dma'', arg_alg := TopDown,
                   arg_prt := (if \<not> is_prt_set then Row else arg_prt a)\<rparr>, is_prt_set)
         else if optarg = ''bot'' then
           Inr (a\<lparr>arg_bin_path := Some ''bin/bottom-up-dma'', arg_alg := BottomUp,
                   arg_prt := (if \<not> is_prt_set then Col else arg_prt a)\<rparr>, is_prt_set)
         else if optarg = ''edge'' then
           Inr (a\<lparr>arg_bin_path := Some ''bin/edge-dma'', arg_alg := Edge,
                   arg_prt := (if \<not> is_prt_set then P2D else arg_prt a)\<rparr>, is_prt_set)
         else Inl (Exit1 ''Incorrect -a argument. Supported algorithms: top | bot | edge''))
      else if c = CHR ''p'' then
        (if optarg = ''row'' then Inr (a\<lparr>arg_prt := Row\<rparr>, True)
         else if optarg = ''col'' then Inr (a\<lparr>arg_prt := Col\<rparr>, True)
         else if optarg = ''2d'' then Inr (a\<lparr>arg_prt := P2D\<rparr>, True)
         else Inl (Exit1 ''Incorrect -p argument. Supported partitioning: row | col | 2d''))
      else if c = CHR ''o'' then Inr (a\<lparr>arg_out_file := Some optarg\<rparr>, is_prt_set)
      else Inl (Exit1 ''Bad args. Usage: -n <num_dpu> -a <top|bot|edge> -p <row|col|2d> -o <output_file>''))"
| "parse_opt Unrecognised (a, is_prt_set) =
     Inl (Exit1 ''Bad args. Usage: -n <num_dpu> -a <top|bot|edge> -p <row|col|2d> -o <output_file>'')"

fun parse_opts :: "getopt_result list \<Rightarrow> args \<times> bool \<Rightarrow> failure + args \<times> bool" where
  "parse_opts [] s = Inr s"
| "parse_opts (g # gs) s = (case parse_opt g s of Inl e \<Rightarrow> Inl e | Inr s' \<Rightarrow> parse_opts gs s')"

definition parse_args :: "getopt_result list \<Rightarrow> string list \<Rightarrow> args \<Rightarrow> failure + args" where
  "parse_args opts operands a =
     (case parse_opts opts (a, False) of
        Inl e \<Rightarrow> Inl e
      | Inr (a', is_prt_set) \<Rightarrow>
          if length operands \<noteq> 1 then
            (if length operands > 1 then Inl (Exit1 ''Too many arguments!'')
             else Inl (Exit1 ''Too few arguments! Please provide data file name (Adjacency list).''))
          else
            let a'' = a'\<lparr>arg_file := Some (operands ! 0)\<rparr>
            in Inr (if arg_out_file a'' = None then a''\<lparr>arg_out_file := Some ''/dev/null''\<rparr> else a''))"

text \<open>
  \<^verbatim>\<open>main\<close> up to its first request to the DPU driver: after \<^verbatim>\<open>parse_args\<close> it opens the
  output file and allocates \<^verbatim>\<open>num_dpu\<close> units. The global \<^verbatim>\<open>num_dpu\<close> starts as 8.
\<close>

datatype main_step = Terminated failure | Fopen string | Dpu_alloc u32

definition main_start :: "getopt_result list \<Rightarrow> string list \<Rightarrow> main_step list" where
  "main_start opts operands =
     (case parse_args opts operands
             \<lparr>arg_num_dpu = Ptr 8, arg_alg = TopDown, arg_prt = Row, arg_bin_path = None, arg_file = None, arg_out_file = None\<rparr> of
        Inl e \<Rightarrow> [Terminated e]
      | Inr a \<Rightarrow>
          (case (arg_out_file a, arg_num_dpu a) of
             (Some f, Ptr n) \<Rightarrow> [Fopen f, Dpu_alloc n]
           | _ \<Rightarrow> [Terminated Undefined_Behaviour]))"

subsection \<open>load_coo\<close>

text \<open>
  The padding of the node count in \<^verbatim>\<open>load_coo\<close>, as a function of the node count read from
  the file and of the unit count \<open>n\<close>; the result becomes \<^verbatim>\<open>num_rows\<close> and \<^verbatim>\<open>num_cols\<close>.
\<close>

definition load_coo_padding :: "u32 \<Rightarrow> u32 \<Rightarrow> u32 option" where
  "load_coo_padding num_nodes n = do {
     r \<leftarrow> umod num_nodes n;
     let num_nodes1 = (if r \<noteq> 0 then num_nodes + (n - r) else num_nodes);
     chunk_size \<leftarrow> udiv num_nodes1 n;
     Some (if chunk_size mod 32 \<noteq> 0 then (chunk_size + (32 - chunk_size mod 32)) * n
           else num_nodes1)
   }"

text \<open>
  Rounding up to a multiple on natural numbers, and the two rounding steps of \<^verbatim>\<open>load_coo\<close>
  where nothing wraps around: first to a multiple of the unit count, then the size of a
  partition to a multiple of 32.
\<close>

definition round_up :: "nat \<Rightarrow> nat \<Rightarrow> nat" where
  "round_up x m = (if x mod m \<noteq> 0 then x + (m - x mod m) else x)"

definition padded_nat :: "nat \<Rightarrow> nat \<Rightarrow> nat" where
  "padded_nat x m = round_up (round_up x m div m) 32 * m"

subsection \<open>partition_coo\<close>

text \<open>
  The partitions are an array of \<open>n\<close> \<^verbatim>\<open>struct COO\<close>. \<^verbatim>\<open>malloc\<close> leaves memory
  indeterminate; the model fills it with 0, and every cell that the code reads has been
  written before. \<open>count_edge\<close> is \<^verbatim>\<open>prts[p].num_edges++\<close>, \<open>append_edge\<close> the body of the
  binning loop after the index \<open>p\<close> is known, \<open>offset_edge\<close> the body of the inner loop that
  rebases one edge, and \<open>offset_partition\<close> the body of the outer loop over the partitions
  with the two offsets \<^verbatim>\<open>p / col_div * num_rows\<close> and \<^verbatim>\<open>p % col_div * num_cols\<close>. The local
  variables \<^verbatim>\<open>num_rows\<close> and \<^verbatim>\<open>num_cols\<close> of \<^verbatim>\<open>partition_coo\<close> are \<open>nrows\<close> and \<open>ncols\<close>.
\<close>

definition count_edge :: "COO list \<Rightarrow> u32 \<Rightarrow> COO list option" where
  "count_edge prts p = do {
     q \<leftarrow> rd prts (unat p);
     wr prts (unat p) (q\<lparr>num_edges := num_edges q + 1\<rparr>)
   }"

definition append_edge :: "COO list \<Rightarrow> u32 \<Rightarrow> u32 \<Rightarrow> u32 \<Rightarrow> COO list option" where
  "append_edge prts p row_idx col_idx = do {
     q \<leftarrow> rd prts (unat p);
     let idx = num_edges q;
     rows \<leftarrow> wr (row_idxs q) (unat idx) row_idx;
     cols \<leftarrow> wr (col_idxs q) (unat idx) col_idx;
     wr prts (unat p) (q\<lparr>row_idxs := rows, col_idxs := cols, num_edges := idx + 1\<rparr>)
   }"

definition offset_edge :: "u32 \<Rightarrow> u32 \<Rightarrow> nat \<Rightarrow> COO \<Rightarrow> COO option" where
  "offset_edge row_offset col_offset i q = do {
     r \<leftarrow> rd (row_idxs q) i;
     rows \<leftarrow> wr (row_idxs q) i (r - row_offset);
     c \<leftarrow> rd (col_idxs q) i;
     cols \<leftarrow> wr (col_idxs q) i (c - col_offset);
     Some (q\<lparr>row_idxs := rows, col_idxs := cols\<rparr>)
   }"

definition row_offset_of :: "bool \<Rightarrow> u32 \<Rightarrow> u32 \<Rightarrow> u32 \<Rightarrow> u32 option" where
  "row_offset_of offset_row col_div nrows p =
     (if offset_row then do { g \<leftarrow> udiv p col_div; Some (g * nrows) } else Some 0)"

definition col_offset_of :: "bool \<Rightarrow> u32 \<Rightarrow> u32 \<Rightarrow> u32 \<Rightarrow> u32 option" where
  "col_offset_of offset_col col_div ncols p =
     (if offset_col then do { g \<leftarrow> umod p col_div; Some (g * ncols) } else Some 0)"

definition offset_partition ::
  "bool \<Rightarrow> bool \<Rightarrow> u32 \<Rightarrow> u32 \<Rightarrow> u32 \<Rightarrow> nat \<Rightarrow> COO list \<Rightarrow> COO list option" where
  "offset_partition offset_row offset_col col_div nrows ncols p prts = do {
     row_offset \<leftarrow> row_offset_of offset_row col_div nrows (of_nat p);
     col_offset \<leftarrow> col_offset_of offset_col col_div ncols (of_nat p);
     q \<leftarrow> rd prts p;
     q' \<leftarrow> for_loop [0..<unat (num_edges q)] (offset_edge row_offset col_offset) q;
     wr prts p q'
   }"

text \<open>
  The \<^verbatim>\<open>switch\<close> of \<^verbatim>\<open>partition_coo\<close> first fixes, per topology, the rows and columns of a
  partition, the grid's column count \<open>col_div\<close> and which offsets apply
  (\<open>partition_shape\<close>), and then counts the edges of every partition with one loop per
  topology. \<open>part_index\<close> is the index computed by the binning loop's \<^verbatim>\<open>if\<close> chain.
\<close>

definition partition_shape ::
  "COO \<Rightarrow> u32 \<Rightarrow> Partition \<Rightarrow> (u32 \<times> u32 \<times> u32 \<times> bool \<times> bool) option" where
  "partition_shape coo n prt =
     (case prt of
        Row \<Rightarrow> do {
          nrows \<leftarrow> udiv (num_rows coo) n;
          Some (nrows, num_cols coo, 1, True, False) }
      | Col \<Rightarrow> do {
          ncols \<leftarrow> udiv (num_cols coo) n;
          Some (num_rows coo, ncols, n, False, True) }
      | P2D \<Rightarrow> do {
          (row_div, col_div) \<leftarrow> nearest_factors n;
          nrows \<leftarrow> udiv (num_rows coo) row_div;
          ncols \<leftarrow> udiv (num_cols coo) col_div;
          Some (nrows, ncols, col_div, True, True) })"

definition part_index :: "Partition \<Rightarrow> u32 \<Rightarrow> u32 \<Rightarrow> u32 \<Rightarrow> u32 \<Rightarrow> u32 \<Rightarrow> u32 option" where
  "part_index prt nrows ncols col_div row_idx col_idx =
     (case prt of
        Row \<Rightarrow> udiv row_idx nrows
      | Col \<Rightarrow> udiv col_idx ncols
      | P2D \<Rightarrow> do {
          p_row \<leftarrow> udiv row_idx nrows;
          p_col \<leftarrow> udiv col_idx ncols;
          Some (p_row * col_div + p_col) })"

definition partition_coo :: "COO \<Rightarrow> u32 \<Rightarrow> Partition \<Rightarrow> COO list option" where
  "partition_coo coo n prt = do {
     let prts0 = replicate (unat n)
           \<lparr>num_rows = 0, num_cols = 0, num_edges = 0, row_idxs = [], col_idxs = []\<rparr>;
     (nrows, ncols, col_div, offset_row, offset_col) \<leftarrow> partition_shape coo n prt;
     prts1 \<leftarrow>
       (case prt of
          Row \<Rightarrow> for_loop [0..<unat (num_edges coo)] (\<lambda>i prts. do {
              row_idx \<leftarrow> rd (row_idxs coo) i;
              p \<leftarrow> udiv row_idx nrows;
              count_edge prts p }) prts0
        | Col \<Rightarrow> for_loop [0..<unat (num_edges coo)] (\<lambda>i prts. do {
              col_idx \<leftarrow> rd (col_idxs coo) i;
              p \<leftarrow> udiv col_idx ncols;
              count_edge prts p }) prts0
        | P2D \<Rightarrow> for_loop [0..<unat (num_edges coo)] (\<lambda>i prts. do {
              row_idx \<leftarrow> rd (row_idxs coo) i;
              p_row \<leftarrow> udiv row_idx nrows;
              col_idx \<leftarrow> rd (col_idxs coo) i;
              p_col \<leftarrow> udiv col_idx ncols;
              count_edge prts (p_row * col_div + p_col) }) prts0);
     let prts2 = map (\<lambda>q. q\<lparr>num_rows := nrows, num_cols := ncols,
                             row_idxs := replicate (unat (num_edges q)) 0,
                             col_idxs := replicate (unat (num_edges q)) 0,
                             num_edges := 0\<rparr>) prts1;
     prts3 \<leftarrow> for_loop [0..<unat (num_edges coo)] (\<lambda>i prts. do {
         row_idx \<leftarrow> rd (row_idxs coo) i;
         col_idx \<leftarrow> rd (col_idxs coo) i;
         p \<leftarrow> part_index prt nrows ncols col_div row_idx col_idx;
         append_edge prts p row_idx col_idx }) prts2;
     for_loop [0..<unat n] (offset_partition offset_row offset_col col_div nrows ncols) prts3
   }"

text \<open>
  The edges of partition \<open>p\<close> in the index space of the whole matrix: the partition's row
  and column offset added back to its rebased indices.
\<close>

definition unrebase ::
  "bool \<Rightarrow> bool \<Rightarrow> u32 \<Rightarrow> u32 \<Rightarrow> u32 \<Rightarrow> nat \<Rightarrow> COO \<Rightarrow> (u32 \<times> u32) list" where
  "unrebase offset_row offset_col col_div nrows ncols p q =
     (case (row_offset_of offset_row col_div nrows (of_nat p),
            col_offset_of offset_col col_div ncols (of_nat p)) of
        (Some row_offset, Some col_offset) \<Rightarrow>
          map (\<lambda>(r, c). (r + row_offset, c + col_offset)) (zip (row_idxs q) (col_idxs q))
      | _ \<Rightarrow> [])"

text \<open>
  For the partition index \<open>b j\<close> of every edge \<open>j\<close>: the edges among the first \<open>k\<close> that belong
  to partition \<open>p\<close>, and the partition \<open>p\<close> as the binning loop leaves it after \<open>k\<close> of the \<open>m\<close>
  edges (the cells not yet written hold the initial value).
\<close>

definition part_members :: "(nat \<Rightarrow> u32) \<Rightarrow> nat \<Rightarrow> nat \<Rightarrow> nat list" where
  "part_members b k p = filter (\<lambda>j. unat (b j) = p) [0..<k]"

definition binned_part ::
  "(nat \<Rightarrow> u32) \<Rightarrow> u32 list \<Rightarrow> u32 list \<Rightarrow> u32 \<Rightarrow> u32 \<Rightarrow> nat \<Rightarrow> nat \<Rightarrow> nat \<Rightarrow> COO" where
  "binned_part b rs cs nrows ncols m k p =
     \<lparr>num_rows = nrows, num_cols = ncols,
      num_edges = of_nat (length (part_members b k p)),
      row_idxs = map ((!) rs) (part_members b k p) @
                 replicate (length (part_members b m p) - length (part_members b k p)) 0,
      col_idxs = map ((!) cs) (part_members b k p) @
                 replicate (length (part_members b m p) - length (part_members b k p)) 0\<rparr>"

subsection \<open>coo_to_csr\<close>

text \<open>
  \<^verbatim>\<open>coo_to_csr\<close> in its four passes: the histogram of the row indices, the prefix sums,
  the binning of the column indices, and the loop that shifts the row pointers back
  (\<open>restore_row_ptrs\<close>), which counts down from \<^verbatim>\<open>num_rows - 1\<close> while the counter is
  positive. \<^verbatim>\<open>calloc\<close> gives \<open>num_rows + 1\<close> zeroed row pointers, the sum computed in 32
  bits.
\<close>

function restore_row_ptrs :: "u32 \<Rightarrow> u32 list \<Rightarrow> u32 list option" where
  "restore_row_ptrs row_idx rp =
     (if row_idx > 0 then do {
        v \<leftarrow> rd rp (unat (row_idx - 1));
        rp' \<leftarrow> wr rp (unat row_idx) v;
        restore_row_ptrs (row_idx - 1) rp'
      } else Some rp)"
  by pat_completeness auto
termination
  by (relation "measure (\<lambda>(row_idx, rp). unat row_idx)")
     (auto simp: unat_minus_one unat_gt_0 word_greater_zero_iff)

declare restore_row_ptrs.simps [simp del]

definition coo_to_csr :: "COO \<Rightarrow> CSR option" where
  "coo_to_csr coo = do {
     let rp0 = replicate (unat (num_rows coo + 1)) 0;
     let ci0 = replicate (unat (num_edges coo)) 0;
     rp1 \<leftarrow> for_loop [0..<unat (num_edges coo)] (\<lambda>i rp. do {
         row_idx \<leftarrow> rd (row_idxs coo) i;
         c \<leftarrow> rd rp (unat row_idx);
         wr rp (unat row_idx) (c + 1) }) rp0;
     (sum_before_next_row, rp2) \<leftarrow> for_loop [0..<unat (num_rows coo)] (\<lambda>row_idx (sum_before_next_row, rp). do {
         let sum_before_row = sum_before_next_row;
         c \<leftarrow> rd rp row_idx;
         rp' \<leftarrow> wr rp row_idx sum_before_row;
         Some (sum_before_next_row + c, rp') }) (0, rp1);
     rp3 \<leftarrow> wr rp2 (unat (num_rows coo)) sum_before_next_row;
     (rp4, ci1) \<leftarrow> for_loop [0..<unat (num_edges coo)] (\<lambda>i (rp, ci). do {
         row_idx \<leftarrow> rd (row_idxs coo) i;
         nnzIdx \<leftarrow> rd rp (unat row_idx);
         rp' \<leftarrow> wr rp (unat row_idx) (nnzIdx + 1);
         c \<leftarrow> rd (col_idxs coo) i;
         ci' \<leftarrow> wr ci (unat nnzIdx) c;
         Some (rp', ci') }) (rp3, ci0);
     rp5 \<leftarrow> restore_row_ptrs (num_rows coo - 1) rp4;
     rp6 \<leftarrow> wr rp5 0 0;
     Some \<lparr>csr_num_rows = num_rows coo, csr_num_cols = num_cols coo,
           csr_num_edges = num_edges coo, row_ptrs = rp6, csr_col_idxs = ci1\<rparr>
   }"

text \<open>The edges a CSR matrix stands for: row \<open>r\<close> owns the slots \<open>row_ptrs[r] \<le> k < row_ptrs[r+1]\<close>.\<close>

definition csr_edges :: "CSR \<Rightarrow> (u32 \<times> u32) list" where
  "csr_edges csr =
     concat (map (\<lambda>r. map (\<lambda>k. (of_nat r, csr_col_idxs csr ! k))
                          [unat (row_ptrs csr ! r)..<unat (row_ptrs csr ! Suc r)])
                 [0..<unat (csr_num_rows csr)])"

text \<open>
  For the rows \<open>b j\<close> of the edges: the edges in rows below \<open>r\<close>, the slot of the column array
  that the binning loop of \<^verbatim>\<open>coo_to_csr\<close> gives to edge \<open>j\<close> (the start of its row plus the
  number of earlier edges of that row), and the column array after \<open>k\<close> edges.
\<close>

definition rows_below :: "(nat \<Rightarrow> u32) \<Rightarrow> nat \<Rightarrow> nat \<Rightarrow> nat list" where
  "rows_below b m r = filter (\<lambda>j. unat (b j) < r) [0..<m]"

definition slot :: "(nat \<Rightarrow> u32) \<Rightarrow> nat \<Rightarrow> nat \<Rightarrow> nat" where
  "slot b m j = length (rows_below b m (unat (b j))) + length (part_members b j (unat (b j)))"

definition scattered :: "(nat \<Rightarrow> u32) \<Rightarrow> u32 list \<Rightarrow> nat \<Rightarrow> nat \<Rightarrow> u32 list" where
  "scattered b cs m k = fold (\<lambda>j ci. ci[slot b m j := cs ! j]) [0..<k] (replicate m 0)"

subsection \<open>print_node_levels\<close>

text \<open>
  \<open>dec\<close> prints a number as \<^verbatim>\<open>%u\<close> does. Every unit holds an array of node levels in its
  MRAM, \<open>dpus ! i\<close> for unit \<open>i\<close> in the order of \<^verbatim>\<open>DPU_FOREACH\<close>; \<open>dpu_get_mram_array_u32\<close>
  copies its first \<open>len\<close> entries to the host and fails when the unit holds fewer.
  \<open>nreal_of\<close> is the index \<^verbatim>\<open>n + i / div * len_nl % total_nodes\<close> (\<open>dv\<close> stands for the
  parameter \<^verbatim>\<open>div\<close>), \<open>merge_level\<close> the body of the inner merge loop,
  \<open>fetch_node_levels\<close> the merge of all units into the zeroed array of \<open>total_nodes\<close> levels,
  and \<open>print_level\<close> the body of the loop that prints the levels. The output is the text
  written to \<^verbatim>\<open>out\<close>.
\<close>

fun dec :: "nat \<Rightarrow> string" where
  "dec n = (if n < 10 then [char_of (48 + n)] else dec (n div 10) @ [char_of (48 + n mod 10)])"

declare dec.simps [simp del]

definition dpu_get_mram_array_u32 :: "u32 list \<Rightarrow> u32 \<Rightarrow> u32 list option" where
  "dpu_get_mram_array_u32 mram_array len =
     (if unat len \<le> length mram_array then Some (take (unat len) mram_array) else None)"

definition nreal_of :: "u32 \<Rightarrow> u32 \<Rightarrow> u32 \<Rightarrow> u32 \<Rightarrow> u32 \<Rightarrow> u32 option" where
  "nreal_of total_nodes len_nl dv i n = do {
     g \<leftarrow> udiv i dv;
     m \<leftarrow> umod (g * len_nl) total_nodes;
     Some (n + m)
   }"

definition merge_level ::
  "u32 \<Rightarrow> u32 \<Rightarrow> u32 \<Rightarrow> u32 \<Rightarrow> u32 list \<Rightarrow> nat \<Rightarrow> u32 list \<Rightarrow> u32 list option" where
  "merge_level total_nodes len_nl dv i nl_tmp n node_levels = do {
     nreal \<leftarrow> nreal_of total_nodes len_nl dv i (of_nat n);
     cur \<leftarrow> rd node_levels (unat nreal);
     v \<leftarrow> rd nl_tmp n;
     if cur = 0 \<or> v < cur then wr node_levels (unat nreal) v else Some node_levels
   }"

definition fetch_node_levels :: "u32 list list \<Rightarrow> u32 \<Rightarrow> u32 \<Rightarrow> u32 \<Rightarrow> u32 list option" where
  "fetch_node_levels dpus total_nodes len_nl dv =
     for_loop [0..<length dpus] (\<lambda>i node_levels. do {
         nl_tmp \<leftarrow> dpu_get_mram_array_u32 (dpus ! i) len_nl;
         for_loop [0..<unat len_nl] (merge_level total_nodes len_nl dv (of_nat i) nl_tmp) node_levels })
       (replicate (unat total_nodes) 0)"

definition print_level :: "u32 list \<Rightarrow> nat \<Rightarrow> string \<Rightarrow> string option" where
  "print_level node_levels node out = do {
     level \<leftarrow> rd node_levels node;
     if node \<noteq> 0 \<and> level = 0 then Some out
     else Some (out @ dec node @ [CHR 0x09] @ dec (unat level) @ [CHR 0x0A])
   }"

definition print_node_levels :: "u32 list list \<Rightarrow> u32 \<Rightarrow> u32 \<Rightarrow> u32 \<Rightarrow> string option" where
  "print_node_levels dpus total_nodes len_nl dv = do {
     let out = ''node'' @ [CHR 0x09] @ ''level'' @ [CHR 0x0A];
     node_levels \<leftarrow> fetch_node_levels dpus total_nodes len_nl dv;
     for_loop [0..<unat total_nodes] (print_level node_levels) out
   }"

text \<open>
  The three arguments with which \<^verbatim>\<open>bfs_top_down\<close>, \<^verbatim>\<open>bfs_bottom_up\<close> and \<^verbatim>\<open>bfs_edge\<close> call
  \<^verbatim>\<open>print_node_levels\<close>: \<^verbatim>\<open>total_nodes\<close>, \<^verbatim>\<open>len_nl\<close> and the divisor, computed from the rows
  (\<^verbatim>\<open>num_nodes\<close>) and columns (\<^verbatim>\<open>num_neighbors\<close>) of the first partition. Bottom-up and
  edge-centric BFS compute the same values and pass the divisor 1.
\<close>

definition levels_layout ::
  "Algorithm \<Rightarrow> Partition \<Rightarrow> u32 \<Rightarrow> u32 \<Rightarrow> u32 \<Rightarrow> (u32 \<times> u32 \<times> u32) option" where
  "levels_layout alg prt num_nodes num_neighbors num_dpu =
     (if alg = TopDown then
        (case prt of
           Row \<Rightarrow> Some (num_neighbors, num_nodes, 1)
         | Col \<Rightarrow> Some (num_nodes, num_nodes, num_dpu)
         | P2D \<Rightarrow> do {
             (row_div, col_div) \<leftarrow> nearest_factors num_dpu;
             total_nodes \<leftarrow> udiv (num_nodes * num_dpu) col_div;
             Some (total_nodes, num_nodes, col_div) })
      else
        (case prt of
           Row \<Rightarrow> Some (num_neighbors, num_neighbors, 1)
         | Col \<Rightarrow> Some (num_nodes, num_neighbors, 1)
         | P2D \<Rightarrow> do {
             (row_div, col_div) \<leftarrow> nearest_factors num_dpu;
             total_nodes \<leftarrow> udiv (num_nodes * num_dpu) col_div;
             Some (total_nodes, num_neighbors, 1) }))"

subsection \<open>start_2d: where each unit's slice of the current frontier starts\<close>

text \<open>
  In every round \<^verbatim>\<open>start_2d\<close> sends unit \<open>i\<close> the slice of the current frontier that starts
  at word \<^verbatim>\<open>i / col_div * len_cf\<close> of the host's frontier.
\<close>

definition start_2d_cf_index :: "u32 \<Rightarrow> u32 \<Rightarrow> u32 \<Rightarrow> u32 option" where
  "start_2d_cf_index i col_div len_cf = do { g \<leftarrow> udiv i col_div; Some (g * len_cf) }"

section \<open>Verification\<close>

subsection \<open>Words as natural numbers\<close>

lemma unat_u32_bound: "unat (x::u32) < 4294967296"
  using unsigned_less [of x] by simp

lemma unat_of_nat_u32: "k < 4294967296 \<Longrightarrow> unat (of_nat k :: u32) = k"
  by (simp add: unat_of_nat)

lemma unat_add_u32: "unat (a::u32) + unat b < 4294967296 \<Longrightarrow> unat (a + b) = unat a + unat b"
  by (simp add: unat_word_ariths)

lemma unat_mult_u32: "unat (a::u32) * unat b < 4294967296 \<Longrightarrow> unat (a * b) = unat a * unat b"
  by (simp add: unat_word_ariths)

lemma unat_Suc_u32: "unat (a::u32) < b \<Longrightarrow> b < 4294967296 \<Longrightarrow> unat (a + 1) = Suc (unat a)"
  using unat_add_u32 [of a 1] by simp

lemma u32_eq_0_iff: "(a::u32) = 0 \<longleftrightarrow> unat a = 0"
  by (simp add: unat_eq_0)

lemma u32_less_iff: "(a::u32) < b \<longleftrightarrow> unat a < unat b"
  by (rule word_less_nat_alt)

lemma u32_le_iff: "(a::u32) \<le> b \<longleftrightarrow> unat a \<le> unat b"
  by (rule word_le_nat_alt)

subsection \<open>Counted loops\<close>

lemma for_loop_append:
  "for_loop (xs @ ys) body s =
     (case for_loop xs body s of None \<Rightarrow> None | Some s' \<Rightarrow> for_loop ys body s')"
  by (induction xs arbitrary: s) (auto split: option.splits)

lemma for_loop_upt_Suc:
  "for_loop [0..<Suc k] body s =
     (case for_loop [0..<k] body s of None \<Rightarrow> None | Some s' \<Rightarrow> body k s')"
  by (simp add: for_loop_append split: option.splits)

text \<open>Total correctness of a counted loop from an invariant that every iteration keeps.\<close>

lemma for_loop_invariant:
  assumes "I 0 s"
    and "\<And>k t. k < n \<Longrightarrow> I k t \<Longrightarrow> \<exists>t'. body k t = Some t' \<and> I (Suc k) t'"
  shows "\<exists>s'. for_loop [0..<n] body s = Some s' \<and> I n s'"
  using assms(2)
proof (induction n)
  case 0
  then show ?case using assms(1) by simp
next
  case (Suc n)
  have "\<exists>s'. for_loop [0..<n] body s = Some s' \<and> I n s'"
    by (rule Suc.IH) (simp add: Suc.prems)
  then obtain t where t: "for_loop [0..<n] body s = Some t" "I n t" by blast
  from Suc.prems [of n t] t(2) obtain t' where "body n t = Some t'" "I (Suc n) t'" by auto
  then show ?case using t(1) by (simp add: for_loop_append)
qed

text \<open>Partial correctness: a property that every successful iteration keeps.\<close>

lemma for_loop_preserves:
  assumes "for_loop xs body s = Some s'" and "P s"
    and "\<And>i t t'. body i t = Some t' \<Longrightarrow> P t \<Longrightarrow> P t'"
  shows "P s'"
  using assms(1,2)
proof (induction xs arbitrary: s)
  case Nil
  then show ?case by simp
next
  case (Cons i xs)
  from Cons.prems(1) obtain t where t: "body i s = Some t" "for_loop xs body t = Some s'"
    by (auto split: option.splits)
  show ?case by (rule Cons.IH [OF t(2)]) (rule assms(3) [OF t(1) Cons.prems(2)])
qed

lemma rd_Some [simp]: "i < length xs \<Longrightarrow> rd xs i = Some (xs ! i)"
  by (simp add: rd_def)

lemma wr_Some [simp]: "i < length xs \<Longrightarrow> wr xs i v = Some (xs[i := v])"
  by (simp add: wr_def)

lemma wr_length: "wr xs i v = Some ys \<Longrightarrow> length ys = length xs"
  by (auto simp: wr_def split: if_splits)

subsection \<open>Alignment of the MRAM bump pointer\<close>

lemma unat_ucast_u32_size: "unat (ucast (L::u32) :: size_t) = unat L"
proof -
  have "unat L < 2 ^ 64" using unat_u32_bound [of L] by simp
  then show ?thesis by (simp add: unsigned_ucast_eq take_bit_eq_mod)
qed

lemma unat_ucast_size_u32: "unat (ucast (s::size_t) :: u32) = unat s mod 4294967296"
  by (simp add: unsigned_ucast_eq take_bit_eq_mod)

lemma unat_insert_size: "unat (insert_size L) = 4 * unat L + (4 * unat L) mod 8"
proof -
  let ?s = "ucast L * (4::size_t)"
  have bound: "unat L < 4294967296" by (rule unat_u32_bound)
  then have a: "unat ?s = unat L * 4"
    by (simp add: unat_word_ariths unat_ucast_u32_size)
  have b: "unat (?s mod 8) = (unat L * 4) mod 8" by (simp add: unat_mod a)
  have "unat (?s + ?s mod 8) = (unat ?s + unat (?s mod 8)) mod 2 ^ 64"
    by (simp only: unat_word_ariths) simp
  also have "\<dots> = (unat L * 4 + (unat L * 4) mod 8) mod 2 ^ 64"
    by (simp only: a b)
  also have "\<dots> = unat L * 4 + (unat L * 4) mod 8"
    using bound by simp
  finally show ?thesis by (simp add: insert_size_def Let_def mult.commute)
qed

lemma insert_size_aligned: "8 dvd unat (insert_size L)"
  unfolding unat_insert_size by presburger

lemma insert_keeps_aligned:
  assumes "8 dvd unat (p_used_mram_end dpu)"
  shows "8 dvd unat (p_used_mram_end (dpu_insert_mram_array_u32 dpu nm src L))"
proof -
  let ?p = "p_used_mram_end dpu"
  have "unat (?p + ucast (insert_size L)) = (unat ?p + unat (insert_size L) mod 4294967296) mod 4294967296"
    by (simp add: unat_word_ariths unat_ucast_size_u32)
  moreover have "8 dvd (unat ?p + unat (insert_size L) mod 4294967296) mod 4294967296"
  proof -
    have w: "(8::nat) dvd 4294967296" by simp
    have "8 dvd unat (insert_size L) mod 4294967296"
      using insert_size_aligned [of L] w by (rule dvd_mod)
    then have "8 dvd unat ?p + unat (insert_size L) mod 4294967296"
      using assms by (rule dvd_add [rotated])
    then show ?thesis using w by (rule dvd_mod)
  qed
  ultimately show ?thesis by (simp add: dpu_insert_mram_array_u32_def Let_def)
qed

lemma insert_all_keeps_aligned:
  "8 dvd unat (p_used_mram_end dpu) \<Longrightarrow> 8 dvd unat (p_used_mram_end (dpu_insert_all ins dpu))"
proof (induction ins arbitrary: dpu)
  case Nil
  then show ?case by simp
next
  case (Cons a ins)
  obtain nm src L where a: "a = (nm, src, L)" by (cases a) auto
  show ?case unfolding a dpu_insert_all.simps
    by (rule Cons.IH) (rule insert_keeps_aligned [OF Cons.prems])
qed

text \<open>
  C10. For every array length \<open>L\<close> the number of bytes by which
  \<^verbatim>\<open>dpu_insert_mram_array_u32\<close> advances the bump pointer is \<open>4 * L + (4 * L) mod 8\<close>, a
  multiple of 8; an insertion started at an 8-byte aligned \<^verbatim>\<open>p_used_mram_end\<close> leaves it
  8-byte aligned, and so does every sequence of insertions.
\<close>

theorem mram_bump_pointer_aligned:
  "unat (insert_size L) = 4 * unat L + (4 * unat L) mod 8 \<and>
   8 dvd unat (insert_size L) \<and>
   (8 dvd unat (p_used_mram_end dpu) \<longrightarrow>
      8 dvd unat (p_used_mram_end (dpu_insert_mram_array_u32 dpu nm src L)) \<and>
      8 dvd unat (p_used_mram_end (dpu_insert_all ins dpu)))"
  using unat_insert_size insert_size_aligned insert_keeps_aligned insert_all_keeps_aligned
  by blast

theorem mram_bump_pointer_aligned_witness:
  "8 dvd unat (p_used_mram_end \<lparr>p_used_mram_end = 16, symbols = Map.empty, mram_copies = []\<rparr>) \<and>
   p_used_mram_end (dpu_insert_all [(''visited'', None, 3), (''edges'', Some [7], 1)]
      \<lparr>p_used_mram_end = 16, symbols = Map.empty, mram_copies = []\<rparr>) = 40 \<and>
   8 dvd unat (p_used_mram_end (dpu_insert_all [(''visited'', None, 3), (''edges'', Some [7], 1)]
      \<lparr>p_used_mram_end = 16, symbols = Map.empty, mram_copies = []\<rparr>))"
  using mram_bump_pointer_aligned [of 3 "\<lparr>p_used_mram_end = 16, symbols = Map.empty, mram_copies = []\<rparr>"
      "''visited''" None "[(''visited'', None, 3), (''edges'', Some [7], 1)]"]
  by (simp add: dpu_insert_mram_array_u32_def insert_size_def Let_def)

subsection \<open>The grid factors\<close>

lemma sqrt_search_le: "sqrt_search n k \<le> k"
  by (induction k) auto

lemma sqrt_search_sq: "sqrt_search n k * sqrt_search n k \<le> n"
  by (induction k) auto

lemma sqrt_search_max: "j \<le> k \<Longrightarrow> j * j \<le> n \<Longrightarrow> j \<le> sqrt_search n k"
proof (induction k)
  case 0
  then show ?case by simp
next
  case (Suc k)
  show ?case
  proof (cases "Suc k * Suc k \<le> n")
    case True
    then show ?thesis using Suc.prems by simp
  next
    case False
    then have "j \<noteq> Suc k" using Suc.prems by auto
    then have "j \<le> k" using Suc.prems by simp
    then show ?thesis using Suc False by simp
  qed
qed

lemma sq_le_self: "j * j \<le> n \<Longrightarrow> j \<le> (n::nat)"
  by (metis le_square le_trans)

lemma unat_sqrt_u32: "unat (sqrt_u32 n) = sqrt_search (unat n) (unat n)"
proof -
  have "sqrt_search (unat n) (unat n) \<le> unat n" by (rule sqrt_search_le)
  then have "sqrt_search (unat n) (unat n) < 4294967296" using unat_u32_bound [of n] by simp
  then show ?thesis by (simp add: sqrt_u32_def unat_of_nat_u32)
qed

lemma sqrt_u32_nonzero: "n \<noteq> 0 \<Longrightarrow> sqrt_u32 n \<noteq> 0"
proof -
  assume "n \<noteq> 0"
  then have "1 \<le> unat n" by (simp add: u32_eq_0_iff)
  then have "1 \<le> sqrt_search (unat n) (unat n)" by (intro sqrt_search_max) simp_all
  then show ?thesis by (simp add: u32_eq_0_iff unat_sqrt_u32)
qed

lemma nearest_factors_loop_result:
  "n \<noteq> 0 \<Longrightarrow> f \<noteq> 0 \<Longrightarrow>
   \<exists>r. nearest_factors_loop n f = Some r \<and> r \<noteq> 0 \<and> unat r \<le> unat f \<and> unat r dvd unat n \<and>
       (\<forall>d. unat r < d \<and> d \<le> unat f \<longrightarrow> \<not> d dvd unat n)"
proof (induction n f rule: nearest_factors_loop.induct)
  case (1 n f)
  show ?case
  proof (cases "n mod f = 0")
    case True
    then have "unat n mod unat f = 0" by (metis unat_mod unat_eq_0)
    then have "unat f dvd unat n" by auto
    then show ?thesis using True "1.prems"
      by (auto simp add: nearest_factors_loop.simps [of n f])
  next
    case False
    then have nd: "\<not> unat f dvd unat n"
      by (metis unat_mod unat_eq_0 dvd_eq_mod_eq_0)
    have "f \<noteq> 1" using False by auto
    then have f1: "f - 1 \<noteq> 0" by simp
    have uf: "unat (f - 1) = unat f - 1" using "1.prems" by (simp add: unat_minus_one)
    from "1.IH" [OF "1.prems"(2) False "1.prems"(1) f1]
    obtain r where r: "nearest_factors_loop n (f - 1) = Some r" "r \<noteq> 0" "unat r \<le> unat (f - 1)"
      "unat r dvd unat n" "\<forall>d. unat r < d \<and> d \<le> unat (f - 1) \<longrightarrow> \<not> d dvd unat n" by blast
    have "\<forall>d. unat r < d \<and> d \<le> unat f \<longrightarrow> \<not> d dvd unat n"
    proof (intro allI impI)
      fix d assume d: "unat r < d \<and> d \<le> unat f"
      show "\<not> d dvd unat n"
      proof (cases "d = unat f")
        case True
        then show ?thesis using nd by simp
      next
        case False
        then have "d \<le> unat (f - 1)" using d uf by arith
        then show ?thesis using r(5) d by blast
      qed
    qed
    then show ?thesis using r False "1.prems" uf
      by (simp add: nearest_factors_loop.simps [of n f])
  qed
qed

text \<open>
  For every non-zero \<open>n\<close> the result is a factor pair \<open>(R, C)\<close> with \<open>R \<le> C\<close>, and no factor
  pair of \<open>n\<close> lies strictly between \<open>R\<close> and \<open>C\<close>.
\<close>

lemma nearest_factors_spec:
  assumes "n \<noteq> 0"
  shows "\<exists>R C. nearest_factors n = Some (R, C) \<and> R \<noteq> 0 \<and> C \<noteq> 0 \<and>
           unat R * unat C = unat n \<and> unat R \<le> unat C \<and>
           (\<forall>a b. a * b = unat n \<and> a \<le> b \<longrightarrow> a \<le> unat R \<and> unat C \<le> b)"
proof -
  let ?s = "sqrt_u32 n"
  have s_sq: "unat ?s * unat ?s \<le> unat n" by (simp add: unat_sqrt_u32 sqrt_search_sq)
  have s_max: "\<And>j. j * j \<le> unat n \<Longrightarrow> j \<le> unat ?s"
    unfolding unat_sqrt_u32 by (rule sqrt_search_max) (rule sq_le_self)
  from nearest_factors_loop_result [OF assms sqrt_u32_nonzero [OF assms]]
  obtain R where R: "nearest_factors_loop n ?s = Some R" "R \<noteq> 0" "unat R \<le> unat ?s"
    "unat R dvd unat n" "\<forall>d. unat R < d \<and> d \<le> unat ?s \<longrightarrow> \<not> d dvd unat n" by blast
  let ?C = "n div R"
  have Rpos: "0 < unat R" using R(2) by (simp add: unat_gt_0)
  have uC: "unat ?C = unat n div unat R" by (rule unat_div)
  have prod: "unat R * unat ?C = unat n" using R(4) by (simp add: uC)
  have npos: "0 < unat n" using assms by (simp add: unat_gt_0)
  have Cpos: "0 < unat ?C" using prod npos by (cases "unat ?C = 0") auto
  have "unat R * unat R \<le> unat R * unat ?s" using R(3) by simp
  also have "\<dots> \<le> unat ?s * unat ?s" using R(3) by simp
  also have "\<dots> \<le> unat R * unat ?C" using s_sq prod by simp
  finally have RC: "unat R \<le> unat ?C" using Rpos by simp
  have closest: "a \<le> unat R \<and> unat ?C \<le> b" if ab: "a * b = unat n \<and> a \<le> b" for a b
  proof -
    have "a \<le> b" and eq: "a * b = unat n" using ab by simp_all
    then have "a * a \<le> a * b" by (intro mult_le_mono2)
    then have "a * a \<le> unat n" by (simp only: eq)
    then have as: "a \<le> unat ?s" by (rule s_max)
    have advd: "a dvd unat n" using ab by (metis dvd_triv_left)
    have aR: "a \<le> unat R" using R(5) as advd by (meson not_le)
    have apos: "0 < a" using ab npos by (cases "a = 0") auto
    have "unat ?C = unat n div unat R" by (rule uC)
    also have "\<dots> \<le> unat n div a" using aR apos by (rule div_le_mono2 [rotated])
    also have "\<dots> = b" using ab apos by (metis nonzero_mult_div_cancel_left less_numeral_extra(3))
    finally show ?thesis using aR by simp
  qed
  have "nearest_factors n = Some (R, ?C)" by (simp add: nearest_factors_def R(1))
  then show ?thesis using R(2) Cpos prod RC closest by (auto simp: unat_gt_0)
qed

text \<open>
  C7. For \<open>N\<close> in \<open>{8, 16, 32}\<close>, \<^verbatim>\<open>nearest_factors\<close> returns the factor pair \<open>(R, C)\<close> of \<open>N\<close>
  closest to the square root of \<open>N\<close> with \<open>R \<le> C\<close>: every factor pair \<open>(a, b)\<close> with
  \<open>a \<le> b\<close> has \<open>a \<le> R\<close> and \<open>C \<le> b\<close>. \<open>N = 8\<close> gives \<open>(2, 4)\<close>, \<open>N = 16\<close> gives \<open>(4, 4)\<close>
  and \<open>N = 32\<close> gives \<open>(4, 8)\<close>.
\<close>

theorem nearest_factors_grid_choice:
  "(N \<in> {8, 16, 32} \<longrightarrow>
      (\<exists>R C. nearest_factors N = Some (R, C) \<and> unat R * unat C = unat N \<and> R \<le> C \<and>
         (\<forall>a b. a * b = unat N \<and> a \<le> b \<longrightarrow> a \<le> unat R \<and> unat C \<le> b))) \<and>
   nearest_factors 8 = Some (2, 4) \<and> nearest_factors 16 = Some (4, 4) \<and>
   nearest_factors 32 = Some (4, 8)"
proof (intro conjI impI)
  assume N: "N \<in> {8, 16, 32}"
  then have "N \<noteq> 0" by auto
  from nearest_factors_spec [OF this]
  show "\<exists>R C. nearest_factors N = Some (R, C) \<and> unat R * unat C = unat N \<and> R \<le> C \<and>
         (\<forall>a b. a * b = unat N \<and> a \<le> b \<longrightarrow> a \<le> unat R \<and> unat C \<le> b)"
    unfolding u32_le_iff by blast
next
  show "nearest_factors 8 = Some (2, 4)" by code_simp
next
  show "nearest_factors 16 = Some (4, 4)" by code_simp
next
  show "nearest_factors 32 = Some (4, 8)" by code_simp
qed

theorem nearest_factors_grid_choice_witness:
  "(32::u32) \<in> {8, 16, 32} \<and> nearest_factors 32 = Some (4, 8) \<and>
   unat (4::u32) * unat (8::u32) = unat (32::u32) \<and> (4::u32) \<le> 8 \<and>
   (2::nat) * 16 = unat (32::u32) \<and> (2::nat) \<le> unat (4::u32) \<and> unat (8::u32) \<le> (16::nat)"
  using nearest_factors_grid_choice [of 32] by simp

subsection \<open>Padding of the node count\<close>

lemma round_up_Suc_div:
  assumes "0 < m" and "x mod m \<noteq> 0"
  shows "round_up x m = Suc (x div m) * m"
proof -
  define q r where "q = x div m" and "r = x mod m"
  have x: "x = q * m + r" by (simp add: q_def r_def)
  have "r < m" using assms(1) by (simp add: r_def)
  then have "q * m + r + (m - r) = Suc q * m" by simp
  then show ?thesis using assms(2) by (simp add: round_up_def x [symmetric] r_def [symmetric] q_def [symmetric])
qed

lemma round_up_dvd:
  assumes mpos: "0 < m"
  shows "m dvd round_up x m"
proof (cases "x mod m = 0")
  case True
  then show ?thesis by (auto simp: round_up_def)
next
  case False
  show ?thesis unfolding round_up_Suc_div [OF mpos False] by simp
qed

lemma round_up_ge: "x \<le> round_up x m"
  by (simp add: round_up_def)

lemma round_up_least:
  assumes mpos: "0 < m" and "m dvd z" and "x \<le> z"
  shows "round_up x m \<le> z"
proof (cases "x mod m = 0")
  case True
  then show ?thesis using assms by (simp add: round_up_def)
next
  case False
  obtain k where k: "z = m * k" using assms(2) by (auto elim: dvdE)
  have "x div m < k"
  proof (rule ccontr)
    assume "\<not> x div m < k"
    then have "k \<le> x div m" by simp
    then have "m * k \<le> m * (x div m)" by simp
    also have "\<dots> \<le> x" by simp
    finally have "x = m * k" using assms(3) k by simp
    then have "x mod m = 0" by simp
    then show False using False by simp
  qed
  then have "Suc (x div m) \<le> k" by simp
  then have "Suc (x div m) * m \<le> k * m" by (rule mult_le_mono1)
  then show ?thesis unfolding round_up_Suc_div [OF mpos False] using k by (simp add: mult.commute)
qed

lemma padded_nat_dvd: "32 * m dvd padded_nat x m"
proof -
  have "32 dvd round_up (round_up x m div m) 32" by (rule round_up_dvd) simp
  then have "32 * m dvd round_up (round_up x m div m) 32 * m" by (rule mult_dvd_mono) simp
  then show ?thesis by (simp add: padded_nat_def)
qed

lemma round_up_le_padded_nat:
  assumes "0 < m"
  shows "round_up x m \<le> padded_nat x m"
proof -
  have "round_up x m = (round_up x m div m) * m"
    using round_up_dvd [OF assms, of x] by simp
  also have "\<dots> \<le> round_up (round_up x m div m) 32 * m"
    by (rule mult_le_mono1) (rule round_up_ge)
  finally show ?thesis by (simp add: padded_nat_def)
qed

lemma padded_nat_ge: "0 < m \<Longrightarrow> x \<le> padded_nat x m"
  using round_up_ge [of x m] round_up_le_padded_nat [of m x] by simp

lemma padded_nat_least:
  assumes "0 < m" and "32 * m dvd z" and "x \<le> z"
  shows "padded_nat x m \<le> z"
proof -
  obtain k where k: "z = 32 * m * k" using assms(2) by (auto elim: dvdE)
  have "m dvd z" using k by simp
  with assms(1) have a: "round_up x m \<le> z" using assms(3) by (rule round_up_least)
  have zdiv: "z div m = 32 * k" using k assms(1) by simp
  have "round_up x m div m \<le> z div m" using a by (rule div_le_mono)
  then have "round_up (round_up x m div m) 32 \<le> 32 * k"
    unfolding zdiv by (intro round_up_least) simp_all
  then have "round_up (round_up x m div m) 32 * m \<le> 32 * k * m" by (rule mult_le_mono1)
  then show ?thesis using k by (simp add: padded_nat_def mult.assoc mult.commute)
qed

lemma unat_load_coo_padding:
  assumes n: "n \<noteq> 0" and fits: "padded_nat (unat num_nodes) (unat n) < 4294967296"
  shows "\<exists>padded. load_coo_padding num_nodes n = Some padded \<and>
           unat padded = padded_nat (unat num_nodes) (unat n)"
proof -
  let ?x = "unat num_nodes" and ?m = "unat n"
  have mpos: "0 < ?m" using n by (simp add: unat_gt_0)
  have r1: "round_up ?x ?m < 4294967296"
    using round_up_le_padded_nat [OF mpos, of ?x] fits by simp
  let ?r = "num_nodes mod n"
  have ur: "unat ?r = ?x mod ?m" by (rule unat_mod)
  have rlt: "?x mod ?m < ?m" using mpos by simp
  have rle: "?r \<le> n" using rlt by (simp add: u32_le_iff ur)
  have unr: "unat (n - ?r) = ?m - ?x mod ?m" using rle by (simp add: unat_sub ur)
  let ?n1 = "if ?r \<noteq> 0 then num_nodes + (n - ?r) else num_nodes"
  have un1: "unat ?n1 = round_up ?x ?m"
  proof (cases "?r = 0")
    case True
    then have "?x mod ?m = 0" using ur by (simp add: u32_eq_0_iff)
    then show ?thesis using True by (simp add: round_up_def)
  next
    case False
    then have nz: "?x mod ?m \<noteq> 0" using ur by (simp add: u32_eq_0_iff)
    then have "?x + (?m - ?x mod ?m) < 4294967296" using r1 by (simp add: round_up_def)
    then have "unat (num_nodes + (n - ?r)) = ?x + (?m - ?x mod ?m)"
      using unat_add_u32 [of num_nodes "n - ?r"] by (simp add: unr)
    then show ?thesis using False nz by (simp add: round_up_def)
  qed
  let ?c = "?n1 div n"
  have uc: "unat ?c = round_up ?x ?m div ?m" by (simp only: unat_div un1)
  have ucm: "unat (?c mod 32) = (round_up ?x ?m div ?m) mod 32" by (simp add: unat_mod uc)
  let ?res = "if ?c mod 32 \<noteq> 0 then (?c + (32 - ?c mod 32)) * n else ?n1"
  have ures: "unat ?res = padded_nat ?x ?m"
  proof (cases "?c mod 32 = 0")
    case True
    then have "(round_up ?x ?m div ?m) mod 32 = 0" using ucm by (simp add: u32_eq_0_iff)
    then have "padded_nat ?x ?m = (round_up ?x ?m div ?m) * ?m"
      by (simp add: padded_nat_def round_up_def)
    also have "\<dots> = round_up ?x ?m" using round_up_dvd [OF mpos, of ?x] by simp
    finally show ?thesis using True un1 by simp
  next
    case False
    let ?k = "round_up ?x ?m div ?m"
    have nz: "?k mod 32 \<noteq> 0" using False ucm by (simp add: u32_eq_0_iff)
    define K where "K = ?k + (32 - ?k mod 32)"
    have pn: "padded_nat ?x ?m = K * ?m"
      using nz by (simp add: padded_nat_def round_up_def K_def)
    have "K \<le> K * ?m" using mpos by simp
    then have small: "K < 4294967296" using fits pn by linarith
    have "?c mod 32 \<le> 32" using ucm by (simp add: u32_le_iff)
    then have u32m: "unat (32 - ?c mod 32) = 32 - ?k mod 32" by (simp add: unat_sub ucm)
    have usum: "unat (?c + (32 - ?c mod 32)) = K"
      using unat_add_u32 [of ?c "32 - ?c mod 32"] small by (simp add: u32m uc K_def)
    have "unat ((?c + (32 - ?c mod 32)) * n) = K * ?m"
      using unat_mult_u32 [of "?c + (32 - ?c mod 32)" n] fits pn by (simp add: usum)
    then show ?thesis using False pn by simp
  qed
  have "load_coo_padding num_nodes n = Some ?res"
    using n by (simp add: load_coo_padding_def umod_def udiv_def Let_def)
  then show ?thesis using ures by blast
qed

text \<open>
  C3, as the code has it. When the unit count \<open>N\<close> is not zero and some multiple of \<open>32 * N\<close>
  that is at least the node count fits in 32 bits, the padded node count of \<^verbatim>\<open>load_coo\<close> is
  at least the node count, divisible by \<open>N\<close> and by \<open>32\<close>, leaves every partition \<open>32 * k\<close>
  nodes, and is the smallest multiple of \<open>32 * N\<close> with these properties.
\<close>

theorem load_coo_padding_least_multiple:
  assumes "n \<noteq> 0"
    and "unat num_nodes \<le> z" and "32 * unat n dvd z" and "z < 4294967296"
  shows "\<exists>padded. load_coo_padding num_nodes n = Some padded \<and>
           unat num_nodes \<le> unat padded \<and>
           unat n dvd unat padded \<and> 32 dvd unat padded \<and> 32 dvd unat padded div unat n \<and>
           unat padded \<le> z"
proof -
  let ?x = "unat num_nodes" and ?m = "unat n"
  have mpos: "0 < ?m" using assms(1) by (simp add: unat_gt_0)
  have least: "padded_nat ?x ?m \<le> z" using mpos assms(3,2) by (rule padded_nat_least)
  then have "padded_nat ?x ?m < 4294967296" using assms(4) by simp
  from unat_load_coo_padding [OF assms(1) this]
  obtain padded where p: "load_coo_padding num_nodes n = Some padded"
    "unat padded = padded_nat ?x ?m" by blast
  have d: "32 * ?m dvd unat padded" unfolding p(2) by (rule padded_nat_dvd)
  then obtain k where k: "unat padded = 32 * ?m * k" by (auto elim: dvdE)
  have "?m dvd unat padded" and "32 dvd unat padded" using k by simp_all
  moreover have "unat padded div ?m = 32 * k" using k mpos by simp
  moreover have "?x \<le> unat padded" unfolding p(2) using mpos by (rule padded_nat_ge)
  ultimately show ?thesis using p least by simp
qed

theorem load_coo_padding_least_multiple_witness:
  "(8::u32) \<noteq> 0 \<and> unat (300::u32) \<le> (512::nat) \<and> 32 * unat (8::u32) dvd (512::nat) \<and>
   (512::nat) < 4294967296 \<and> load_coo_padding 300 8 = Some 512 \<and> unat (512::u32) \<le> (512::nat)"
  using load_coo_padding_least_multiple [of 8 300 512]
  by (simp add: load_coo_padding_def umod_def udiv_def)

text \<open>
  Read as the least padding that makes the count divisible by \<open>N\<close> and by 32, for every
  node count, the property fails twice: 32 nodes on 8 units are already divisible by 8 and by
  32, yet 224 nodes are added; and a count near \<open>2^32\<close> wraps around, after which the result
  for 24 units is not a multiple of 24.
\<close>

theorem load_coo_padding_counterexample:
  "load_coo_padding 32 8 = Some 256 \<and> (8::nat) dvd 32 \<and> (32::nat) dvd 32 \<and>
   load_coo_padding 4294967290 24 = Some 8 \<and> \<not> (24::nat) dvd 8"
  by (simp add: load_coo_padding_def umod_def udiv_def)

subsection \<open>Merging and printing the node levels\<close>

lemma nreal_of_bound:
  assumes len: "len_nl \<noteq> 0" and dvd: "unat len_nl dvd unat total_nodes"
    and total: "total_nodes \<noteq> 0" and dv: "dv \<noteq> 0"
    and n: "unat n < unat len_nl"
    and fits: "unat (i div dv) * unat len_nl < 4294967296"
  shows "\<exists>nreal. nreal_of total_nodes len_nl dv i n = Some nreal \<and> unat nreal < unat total_nodes"
proof -
  let ?T = "unat total_nodes" and ?L = "unat len_nl"
  let ?m = "(i div dv * len_nl) mod total_nodes"
  have um: "unat ?m = (unat (i div dv) * ?L) mod ?T"
    using unat_mult_u32 [OF fits] by (simp add: unat_mod)
  have Tpos: "0 < ?T" using total by (simp add: unat_gt_0)
  have m_lt: "unat ?m < ?T" unfolding um using Tpos by simp
  have "?L dvd unat (i div dv) * ?L" by simp
  then have "?L dvd unat ?m" unfolding um using dvd by (rule dvd_mod)
  then obtain j where j: "unat ?m = ?L * j" by (auto elim: dvdE)
  obtain k where k: "?T = ?L * k" using dvd by (auto elim: dvdE)
  have "j < k" using m_lt unfolding j k by simp
  then have "Suc j \<le> k" by simp
  then have "?L * Suc j \<le> ?L * k" by (rule mult_le_mono2)
  then have room: "unat ?m + ?L \<le> ?T" using j k by simp
  then have sum_lt: "unat n + unat ?m < ?T" using n by simp
  then have "unat n + unat ?m < 4294967296" using unat_u32_bound [of total_nodes] by simp
  then have "unat (n + ?m) = unat n + unat ?m" by (rule unat_add_u32)
  then have "unat (n + ?m) < ?T" using sum_lt by simp
  moreover have "nreal_of total_nodes len_nl dv i n = Some (n + ?m)"
    using dv total by (simp add: nreal_of_def udiv_def umod_def)
  ultimately show ?thesis by blast
qed

lemma merge_level_length:
  "merge_level total_nodes len_nl dv i nl_tmp n node_levels = Some nl' \<Longrightarrow>
   length nl' = length node_levels"
  by (auto simp: merge_level_def wr_def split: bind_splits if_splits)

lemma merge_level_succeeds:
  assumes len: "len_nl \<noteq> 0" and dvd: "unat len_nl dvd unat total_nodes"
    and total: "total_nodes \<noteq> 0" and dv: "dv \<noteq> 0"
    and n: "n < unat len_nl"
    and fits: "unat (i div dv) * unat len_nl < 4294967296"
    and lens: "length node_levels = unat total_nodes" "length nl_tmp = unat len_nl"
  shows "\<exists>nl'. merge_level total_nodes len_nl dv i nl_tmp n node_levels = Some nl' \<and>
           length nl' = unat total_nodes"
proof -
  have "n < 4294967296" using n unat_u32_bound [of len_nl] by simp
  then have un: "unat (of_nat n :: u32) = n" by (rule unat_of_nat_u32)
  from nreal_of_bound [OF len dvd total dv _ fits, of "of_nat n"] n un
  obtain nreal where nreal: "nreal_of total_nodes len_nl dv i (of_nat n) = Some nreal"
    "unat nreal < unat total_nodes" by auto
  show ?thesis using nreal n lens by (simp add: merge_level_def)
qed

lemma fetch_node_levels_length:
  assumes "fetch_node_levels dpus total_nodes len_nl dv = Some node_levels"
  shows "length node_levels = unat total_nodes"
proof -
  let ?P = "\<lambda>nl :: u32 list. length nl = unat total_nodes"
  show ?thesis
  proof (rule for_loop_preserves [where P = ?P, OF assms [unfolded fetch_node_levels_def]])
    show "?P (replicate (unat total_nodes) 0)" by simp
  next
    fix i t t'
    assume step: "dpu_get_mram_array_u32 (dpus ! i) len_nl \<bind>
        (\<lambda>nl_tmp. for_loop [0..<unat len_nl]
           (merge_level total_nodes len_nl dv (word_of_nat i) nl_tmp) t) = Some t'"
      and t: "?P t"
    then obtain nl_tmp where inner:
      "for_loop [0..<unat len_nl] (merge_level total_nodes len_nl dv (word_of_nat i) nl_tmp) t = Some t'"
      by (auto split: bind_splits)
    show "?P t'"
      by (rule for_loop_preserves [where P = ?P, OF inner t]) (simp add: merge_level_length)
  qed
qed

lemma fetch_node_levels_succeeds:
  assumes len: "len_nl \<noteq> 0" and dvd: "unat len_nl dvd unat total_nodes"
    and total: "total_nodes \<noteq> 0" and dv: "dv \<noteq> 0"
    and count: "length dpus \<le> 4294967296"
    and fits: "\<forall>i<length dpus. (i div unat dv) * unat len_nl < 4294967296"
    and arrays: "\<forall>d\<in>set dpus. unat len_nl \<le> length d"
  shows "\<exists>node_levels. fetch_node_levels dpus total_nodes len_nl dv = Some node_levels \<and>
           length node_levels = unat total_nodes"
proof -
  let ?I = "\<lambda>(k::nat) nl :: u32 list. length nl = unat total_nodes"
  have "\<exists>s'. for_loop [0..<length dpus] (\<lambda>i node_levels. do {
         nl_tmp \<leftarrow> dpu_get_mram_array_u32 (dpus ! i) len_nl;
         for_loop [0..<unat len_nl] (merge_level total_nodes len_nl dv (of_nat i) nl_tmp) node_levels })
       (replicate (unat total_nodes) 0) = Some s' \<and> ?I (length dpus) s'"
  proof (rule for_loop_invariant [where I = ?I])
    show "?I 0 (replicate (unat total_nodes) 0)" by simp
  next
    fix i t
    assume i: "i < length dpus" and t: "?I i t"
    have "i < 4294967296" using i count by simp
    then have ui: "unat (of_nat i :: u32) = i" by (rule unat_of_nat_u32)
    have "unat (of_nat i div dv :: u32) = i div unat dv" by (simp add: unat_div ui)
    then have f: "unat (of_nat i div dv :: u32) * unat len_nl < 4294967296" using fits i by simp
    have "unat len_nl \<le> length (dpus ! i)" using arrays i by simp
    then have get: "dpu_get_mram_array_u32 (dpus ! i) len_nl = Some (take (unat len_nl) (dpus ! i))"
      and tl: "length (take (unat len_nl) (dpus ! i)) = unat len_nl"
      by (simp_all add: dpu_get_mram_array_u32_def)
    have "\<exists>s'. for_loop [0..<unat len_nl]
            (merge_level total_nodes len_nl dv (of_nat i) (take (unat len_nl) (dpus ! i))) t = Some s' \<and>
            ?I (unat len_nl) s'"
    proof (rule for_loop_invariant [where I = ?I])
      show "?I 0 t" using t .
    next
      fix n u
      assume "n < unat len_nl" and "?I n u"
      then show "\<exists>t'. merge_level total_nodes len_nl dv (of_nat i) (take (unat len_nl) (dpus ! i)) n u = Some t' \<and>
               ?I (Suc n) t'"
        using merge_level_succeeds [OF len dvd total dv _ f _ tl] by simp
    qed
    then show "\<exists>t'. (do {
         nl_tmp \<leftarrow> dpu_get_mram_array_u32 (dpus ! i) len_nl;
         for_loop [0..<unat len_nl] (merge_level total_nodes len_nl dv (of_nat i) nl_tmp) t }) = Some t' \<and>
         ?I (Suc i) t'"
      by (simp add: get)
  qed
  then show ?thesis by (simp add: fetch_node_levels_def)
qed

text \<open>
  C9, as the code has it. Let \<open>len_nl\<close> be non-zero and divide a non-zero \<open>total_nodes\<close>, let
  \<open>div\<close> be non-zero, and let the product \<open>(i / div) * len_nl\<close> fit in 32 bits. Then for every
  entry \<open>n < len_nl\<close> the destination index \<open>nreal\<close> is below \<open>total_nodes\<close>; and when this
  holds for every unit and every unit holds \<open>len_nl\<close> levels, the whole merge runs without
  leaving the array of \<open>total_nodes\<close> merged levels. (That the call sites meet these
  conditions is \<open>levels_layout_sound\<close> below.)
\<close>

theorem node_levels_index_in_bounds:
  assumes "len_nl \<noteq> 0" and "unat len_nl dvd unat total_nodes"
    and "total_nodes \<noteq> 0" and "dv \<noteq> 0"
  shows "(n < len_nl \<and> unat (i div dv) * unat len_nl < 4294967296 \<longrightarrow>
            (\<exists>nreal. nreal_of total_nodes len_nl dv i n = Some nreal \<and> nreal < total_nodes)) \<and>
         (length dpus \<le> 4294967296 \<and>
          (\<forall>i<length dpus. (i div unat dv) * unat len_nl < 4294967296) \<and>
          (\<forall>d\<in>set dpus. unat len_nl \<le> length d) \<longrightarrow>
            (\<exists>node_levels. fetch_node_levels dpus total_nodes len_nl dv = Some node_levels \<and>
               length node_levels = unat total_nodes))"
  using nreal_of_bound [OF assms, of n i] fetch_node_levels_succeeds [OF assms, of dpus]
  by (simp add: u32_less_iff)

theorem node_levels_index_in_bounds_witness:
  "(4::u32) \<noteq> 0 \<and> unat (4::u32) dvd unat (8::u32) \<and> (8::u32) \<noteq> 0 \<and> (1::u32) \<noteq> 0 \<and>
   (3::u32) < 4 \<and> unat ((1::u32) div 1) * unat (4::u32) < 4294967296 \<and>
   nreal_of 8 4 1 1 3 = Some 7 \<and> (7::u32) < 8 \<and>
   length [[0, 1, 0, 2], [3, 0, 0, 12::u32]] \<le> 4294967296 \<and>
   fetch_node_levels [[0, 1, 0, 2], [3, 0, 0, 12]] 8 4 1 = Some [0, 1, 0, 2, 3, 0, 0, 12]"
proof -
  have f: "fetch_node_levels [[0, 1, 0, 2], [3, 0, 0, 12]] 8 4 1 = Some [0, 1, 0, 2, 3, 0, 0, 12]"
    by code_simp
  show ?thesis
    using node_levels_index_in_bounds [of 4 8 1 3 1 "[[0, 1, 0, 2], [3, 0, 0, 12]]"] f
    by (simp add: nreal_of_def udiv_def umod_def)
qed

text \<open>
  Without the condition on the product the bound fails in 32-bit arithmetic: with 512 units
  that each report all 12582912 levels, the product for unit 400 wraps around and the last
  entry of that unit is merged at index 20971519, beyond the array. An array of no levels at
  all and a divisor of 0 make the index a division by zero.
\<close>

theorem node_levels_index_counterexample:
  "(12582912::u32) \<noteq> 0 \<and> unat (12582912::u32) dvd unat (12582912::u32) \<and>
   (400::u32) < 512 \<and> (12582911::u32) < 12582912 \<and>
   nreal_of 12582912 12582912 1 400 12582911 = Some 20971519 \<and>
   \<not> (20971519::u32) < 12582912 \<and>
   (4::u32) \<noteq> 0 \<and> unat (4::u32) dvd unat (0::u32) \<and> nreal_of 0 4 1 0 3 = None \<and>
   unat (4::u32) dvd unat (8::u32) \<and> nreal_of 8 4 0 1 3 = None"
  by (simp add: nreal_of_def udiv_def umod_def)

text \<open>
  A level of 0 reported by a unit always ends up in the merged array, whatever level was
  recorded before: it is smaller than every recorded level that is not 0.
\<close>

lemma merge_level_zero_overwrites:
  assumes "nreal_of total_nodes len_nl dv i (of_nat n) = Some nreal"
    and "unat nreal < length node_levels" and "n < length nl_tmp" and "nl_tmp ! n = 0"
  shows "merge_level total_nodes len_nl dv i nl_tmp n node_levels =
           Some (node_levels[unat nreal := 0])"
proof (cases "node_levels ! unat nreal = 0")
  case True
  then show ?thesis using assms by (simp add: merge_level_def)
next
  case False
  then have "0 < node_levels ! unat nreal" by (simp add: word_greater_zero_iff)
  then show ?thesis using assms by (simp add: merge_level_def)
qed

text \<open>
  C1. The merge keeps the level of a later unit whenever it is smaller than the recorded one,
  also when it is 0: the reports \<open>[3, 0]\<close> and \<open>[0, 2]\<close> for the same two nodes merge to
  \<open>[0, 2]\<close>, and in the other order to \<open>[3, 0]\<close>, not to the non-zero minimum \<open>[3, 2]\<close>.
\<close>

theorem merge_overwrites_level_with_zero:
  "fetch_node_levels [[3, 0], [0, 2]] 2 2 1 = Some [0, 2] \<and>
   fetch_node_levels [[0, 2], [3, 0]] 2 2 1 = Some [3, 0]"
  by code_simp

lemma print_levels_loop:
  assumes "k \<le> length node_levels"
  shows "for_loop [0..<k] (print_level node_levels) out =
     Some (out @ concat (map (\<lambda>node. dec node @ [CHR 0x09] @ dec (unat (node_levels ! node)) @ [CHR 0x0A])
                            (filter (\<lambda>node. node = 0 \<or> node_levels ! node \<noteq> 0) [0..<k])))"
  using assms
proof (induction k)
  case 0
  then show ?case by simp
next
  case (Suc k)
  then have IH: "for_loop [0..<k] (print_level node_levels) out =
     Some (out @ concat (map (\<lambda>node. dec node @ [CHR 0x09] @ dec (unat (node_levels ! node)) @ [CHR 0x0A])
                            (filter (\<lambda>node. node = 0 \<or> node_levels ! node \<noteq> 0) [0..<k])))"
    and k: "k < length node_levels" by simp_all
  show ?case
    unfolding for_loop_upt_Suc IH using k by (simp add: print_level_def)
qed

text \<open>
  C8. The output is the header line \<open>node\<close> TAB \<open>level\<close>, followed by one line
  \<open>node\<close> TAB \<open>level\<close> for every node whose merged level is not 0 and for node 0 in any case,
  in ascending order of the node id; every other node is left out.
\<close>

theorem print_node_levels_format:
  assumes "fetch_node_levels dpus total_nodes len_nl dv = Some node_levels"
  shows "print_node_levels dpus total_nodes len_nl dv =
     Some (''node'' @ [CHR 0x09] @ ''level'' @ [CHR 0x0A] @
           concat (map (\<lambda>node. dec node @ [CHR 0x09] @ dec (unat (node_levels ! node)) @ [CHR 0x0A])
                       (filter (\<lambda>node. node = 0 \<or> node_levels ! node \<noteq> 0) [0..<unat total_nodes]))) \<and>
     sorted_wrt (<) (filter (\<lambda>node. node = 0 \<or> node_levels ! node \<noteq> 0) [0..<unat total_nodes])"
proof -
  have "unat total_nodes \<le> length node_levels"
    using fetch_node_levels_length [OF assms] by simp
  from print_levels_loop [OF this]
  show ?thesis by (simp add: print_node_levels_def assms sorted_wrt_filter)
qed

theorem print_node_levels_format_witness:
  "fetch_node_levels [[0, 1, 0, 2], [3, 0, 0, 12]] 8 4 1 = Some [0, 1, 0, 2, 3, 0, 0, 12] \<and>
   print_node_levels [[0, 1, 0, 2], [3, 0, 0, 12]] 8 4 1 =
     Some (''node'' @ [CHR 0x09] @ ''level'' @ [CHR 0x0A] @
           ''0'' @ [CHR 0x09] @ ''0'' @ [CHR 0x0A] @
           ''1'' @ [CHR 0x09] @ ''1'' @ [CHR 0x0A] @
           ''3'' @ [CHR 0x09] @ ''2'' @ [CHR 0x0A] @
           ''4'' @ [CHR 0x09] @ ''3'' @ [CHR 0x0A] @
           ''7'' @ [CHR 0x09] @ ''12'' @ [CHR 0x0A])"
proof -
  have f: "fetch_node_levels [[0, 1, 0, 2], [3, 0, 0, 12]] 8 4 1 = Some [0, 1, 0, 2, 3, 0, 0, 12]"
    by code_simp
  show ?thesis using print_node_levels_format [OF f] f
    by (simp add: upt_rec dec.simps char_of_def bit_Suc_0_iff)
qed

subsection \<open>The unit count on the command line\<close>

lemma parse_opt_n_not_multiple_of_8:
  assumes "arg_num_dpu a \<noteq> Null" and "(word_of_int (atoi optarg) :: u32) mod 8 \<noteq> 0"
  shows "parse_opt (Opt CHR ''n'' optarg) (a, is_prt_set) =
           Inl (Exit1 ''Number of DPUs must be a multiple of 8.'')"
  using assms by (cases "arg_num_dpu a") (simp_all add: Let_def)

lemma parse_opt_n_multiple_of_8:
  assumes "arg_num_dpu a \<noteq> Null" and "(word_of_int (atoi optarg) :: u32) mod 8 = 0"
  shows "parse_opt (Opt CHR ''n'' optarg) (a, is_prt_set) =
           Inr (a\<lparr>arg_num_dpu := Ptr (word_of_int (atoi optarg))\<rparr>, is_prt_set)"
  using assms by (cases "arg_num_dpu a") (simp_all add: Let_def)

lemma atoi_beyond_long:
  "atoi ''9223372036854775808'' = - 1 \<and> atoi ''4294967296'' = 0 \<and> atoi ''-8'' = - 8 \<and>
   main_start [Opt CHR ''n'' ''9223372036854775808''] [''graph.txt''] =
     [Terminated (Exit1 ''Number of DPUs must be a multiple of 8.'')] \<and>
   main_start [Opt CHR ''n'' ''4294967296''] [''graph.txt''] = [Fopen ''/dev/null'', Dpu_alloc 0]"
  by code_simp

text \<open>
  C2. A unit count of 0, written as \<open>0\<close> or as a string that \<^verbatim>\<open>atoi\<close> reads as 0, passes
  \<^verbatim>\<open>parse_args\<close>: the test compares the pointer \<^verbatim>\<open>num_dpu\<close> with 0, not the count, and 0 is a
  multiple of 8. \<^verbatim>\<open>main\<close> then opens the output file and asks for the allocation of 0 units
  instead of reporting a configuration error.
\<close>

theorem unit_count_zero_reaches_allocation:
  "atoi ''0'' = 0 \<and> atoi ''abc'' = 0 \<and>
   main_start [Opt CHR ''n'' ''0''] [''graph.txt''] = [Fopen ''/dev/null'', Dpu_alloc 0] \<and>
   main_start [Opt CHR ''n'' ''abc''] [''graph.txt''] = [Fopen ''/dev/null'', Dpu_alloc 0] \<and>
   main_start [Opt CHR ''n'' ''12''] [''graph.txt''] =
     [Terminated (Exit1 ''Number of DPUs must be a multiple of 8.'')]"
  by code_simp

subsection \<open>Partitioning: the three passes\<close>

lemma for_loop_cong:
  "(\<And>i s. i \<in> set xs \<Longrightarrow> f i s = g i s) \<Longrightarrow> for_loop xs f s = for_loop xs g s"
  by (induction xs arbitrary: s) (auto split: option.splits)

lemma part_members_0 [simp]: "part_members b 0 p = []"
  by (simp add: part_members_def)

lemma part_members_Suc:
  "part_members b (Suc k) p = part_members b k p @ (if unat (b k) = p then [k] else [])"
  by (simp add: part_members_def)

lemma part_members_mono: "k \<le> m \<Longrightarrow> length (part_members b k p) \<le> length (part_members b m p)"
proof (induction m)
  case 0
  then show ?case by simp
next
  case (Suc m)
  show ?case
  proof (cases "k = Suc m")
    case True
    then show ?thesis by simp
  next
    case False
    then have "k \<le> m" using Suc.prems by simp
    then show ?thesis using Suc.IH by (simp add: part_members_Suc)
  qed
qed

lemma part_members_less:
  assumes "k < m" and "unat (b k) = p"
  shows "length (part_members b k p) < length (part_members b m p)"
proof -
  have "length (part_members b (Suc k) p) \<le> length (part_members b m p)"
    using assms(1) by (intro part_members_mono) simp
  then show ?thesis using assms(2) by (simp add: part_members_Suc)
qed

lemma part_members_le: "length (part_members b k p) \<le> k"
  unfolding part_members_def using length_filter_le [of _ "[0..<k]"] by simp

lemma part_members_in: "j \<in> set (part_members b k p) \<Longrightarrow> j < k \<and> unat (b j) = p"
  by (simp add: part_members_def)

lemma count_edge_map:
  assumes "unat p < N"
  shows "count_edge (map F [0..<N]) p =
           Some (map (\<lambda>q. if q = unat p then (F q)\<lparr>num_edges := num_edges (F q) + 1\<rparr> else F q) [0..<N])"
proof -
  have "(map F [0..<N])[unat p := (F (unat p))\<lparr>num_edges := num_edges (F (unat p)) + 1\<rparr>] =
        map (\<lambda>q. if q = unat p then (F q)\<lparr>num_edges := num_edges (F q) + 1\<rparr> else F q) [0..<N]"
    by (rule nth_equalityI) (auto simp: nth_list_update)
  then show ?thesis using assms by (simp add: count_edge_def)
qed

lemma count_pass:
  assumes "\<forall>i<m. unat (b i) < N" and "k \<le> m"
  shows "for_loop [0..<k] (\<lambda>i prts. count_edge prts (b i))
           (replicate N \<lparr>num_rows = 0, num_cols = 0, num_edges = 0, row_idxs = [], col_idxs = []\<rparr>) =
         Some (map (\<lambda>p. \<lparr>num_rows = 0, num_cols = 0,
                          num_edges = of_nat (length (part_members b k p)),
                          row_idxs = [], col_idxs = []\<rparr>) [0..<N])"
  using assms(2)
proof (induction k)
  case 0
  show ?case by (simp add: map_replicate_const)
next
  case (Suc k)
  then have IH: "for_loop [0..<k] (\<lambda>i prts. count_edge prts (b i))
           (replicate N \<lparr>num_rows = 0, num_cols = 0, num_edges = 0, row_idxs = [], col_idxs = []\<rparr>) =
         Some (map (\<lambda>p. \<lparr>num_rows = 0, num_cols = 0,
                          num_edges = of_nat (length (part_members b k p)),
                          row_idxs = [], col_idxs = []\<rparr>) [0..<N])"
    and k: "k < m" by simp_all
  have bk: "unat (b k) < N" using assms(1) k by simp
  show ?case
    unfolding for_loop_upt_Suc IH option.case count_edge_map [OF bk]
    by (simp add: part_members_Suc)
qed

lemma list_update_written_prefix:
  assumes "length xs = l" and "l < c"
  shows "(xs @ replicate (c - l) z)[l := v] = (xs @ [v]) @ replicate (c - Suc l) z"
proof -
  have "replicate (c - l) z = z # replicate (c - Suc l) z"
    using assms(2) by (simp add: Suc_diff_Suc flip: replicate_Suc)
  then show ?thesis using assms(1) by (simp add: list_update_append)
qed

lemma append_edge_map:
  assumes p: "unat p < N"
    and idx: "unat (num_edges (F (unat p))) < length (row_idxs (F (unat p)))"
             "unat (num_edges (F (unat p))) < length (col_idxs (F (unat p)))"
  shows "append_edge (map F [0..<N]) p r c =
           Some (map (\<lambda>q. if q = unat p
                           then (F q)\<lparr>row_idxs := (row_idxs (F q))[unat (num_edges (F q)) := r],
                                       col_idxs := (col_idxs (F q))[unat (num_edges (F q)) := c],
                                       num_edges := num_edges (F q) + 1\<rparr>
                           else F q) [0..<N])"
proof -
  let ?q = "F (unat p)"
  let ?q' = "?q\<lparr>row_idxs := (row_idxs ?q)[unat (num_edges ?q) := r],
                  col_idxs := (col_idxs ?q)[unat (num_edges ?q) := c],
                  num_edges := num_edges ?q + 1\<rparr>"
  have "(map F [0..<N])[unat p := ?q'] =
        map (\<lambda>q. if q = unat p
                  then (F q)\<lparr>row_idxs := (row_idxs (F q))[unat (num_edges (F q)) := r],
                              col_idxs := (col_idxs (F q))[unat (num_edges (F q)) := c],
                              num_edges := num_edges (F q) + 1\<rparr>
                  else F q) [0..<N]"
    by (rule nth_equalityI) (auto simp: nth_list_update)
  then show ?thesis using p idx by (simp add: append_edge_def Let_def)
qed

lemma bin_pass:
  assumes b: "\<forall>i<m. unat (b i) < N" and m: "m < 4294967296" and k: "k \<le> m"
  shows "for_loop [0..<k] (\<lambda>i prts. append_edge prts (b i) (rs ! i) (cs ! i))
           (map (binned_part b rs cs nrows ncols m 0) [0..<N]) =
         Some (map (binned_part b rs cs nrows ncols m k) [0..<N])"
  using k
proof (induction k)
  case 0
  show ?case by simp
next
  case (Suc k)
  then have IH: "for_loop [0..<k] (\<lambda>i prts. append_edge prts (b i) (rs ! i) (cs ! i))
           (map (binned_part b rs cs nrows ncols m 0) [0..<N]) =
         Some (map (binned_part b rs cs nrows ncols m k) [0..<N])"
    and k: "k < m" by simp_all
  let ?F = "binned_part b rs cs nrows ncols m k"
  let ?p = "unat (b k)"
  let ?l = "length (part_members b k ?p)"
  let ?c = "length (part_members b m ?p)"
  have bk: "?p < N" using b k by simp
  have lc: "?l < ?c" using k by (rule part_members_less) simp
  have "?l \<le> k" by (rule part_members_le)
  then have "?l < 4294967296" using k m by simp
  then have ul: "unat (of_nat ?l :: u32) = ?l" by (rule unat_of_nat_u32)
  have ne: "unat (num_edges (?F ?p)) = ?l" by (simp add: binned_part_def ul)
  have idx: "unat (num_edges (?F ?p)) < length (row_idxs (?F ?p))"
            "unat (num_edges (?F ?p)) < length (col_idxs (?F ?p))"
    unfolding ne using lc by (simp_all add: binned_part_def)
  have step: "(if q = ?p
               then (?F q)\<lparr>row_idxs := (row_idxs (?F q))[unat (num_edges (?F q)) := rs ! k],
                          col_idxs := (col_idxs (?F q))[unat (num_edges (?F q)) := cs ! k],
                          num_edges := num_edges (?F q) + 1\<rparr>
               else ?F q) = binned_part b rs cs nrows ncols m (Suc k) q" for q
  proof (cases "q = ?p")
    case True
    have r: "(row_idxs (?F ?p))[?l := rs ! k] =
             (map ((!) rs) (part_members b k ?p) @ [rs ! k]) @ replicate (?c - Suc ?l) 0"
      unfolding binned_part_def COO.simps by (rule list_update_written_prefix) (simp_all add: lc)
    have c: "(col_idxs (?F ?p))[?l := cs ! k] =
             (map ((!) cs) (part_members b k ?p) @ [cs ! k]) @ replicate (?c - Suc ?l) 0"
      unfolding binned_part_def COO.simps by (rule list_update_written_prefix) (simp_all add: lc)
    show ?thesis unfolding True ne r c
      by (simp add: binned_part_def part_members_Suc)
  next
    case False
    then show ?thesis by (simp add: binned_part_def part_members_Suc)
  qed
  show ?case
    unfolding for_loop_upt_Suc IH option.case append_edge_map [of "b k" N ?F, OF bk idx] step ..
qed

lemma offset_step_list:
  assumes "l < length xs"
  shows "(map f (take l xs) @ drop l xs)[l := f (xs ! l)] = map f (take (Suc l) xs) @ drop (Suc l) xs"
proof -
  have d: "drop l xs = xs ! l # drop (Suc l) xs" using assms by (rule Cons_nth_drop_Suc [symmetric])
  have "length (map f (take l xs)) = l" using assms by simp
  then have "(map f (take l xs) @ drop l xs)[l := f (xs ! l)] =
             map f (take l xs) @ (drop l xs)[0 := f (xs ! l)]"
    by (simp add: list_update_append)
  also have "\<dots> = map f (take l xs) @ f (xs ! l) # drop (Suc l) xs" by (simp add: d)
  also have "\<dots> = map f (take (Suc l) xs) @ drop (Suc l) xs"
    using assms by (simp add: take_Suc_conv_app_nth)
  finally show ?thesis .
qed

lemma offset_edges_loop:
  assumes "l \<le> length (row_idxs q)" and "l \<le> length (col_idxs q)"
  shows "for_loop [0..<l] (offset_edge ro co) q =
           Some (q\<lparr>row_idxs := map (\<lambda>r. r - ro) (take l (row_idxs q)) @ drop l (row_idxs q),
                    col_idxs := map (\<lambda>c. c - co) (take l (col_idxs q)) @ drop l (col_idxs q)\<rparr>)"
  using assms
proof (induction l)
  case 0
  show ?case by simp
next
  case (Suc l)
  then have IH: "for_loop [0..<l] (offset_edge ro co) q =
           Some (q\<lparr>row_idxs := map (\<lambda>r. r - ro) (take l (row_idxs q)) @ drop l (row_idxs q),
                    col_idxs := map (\<lambda>c. c - co) (take l (col_idxs q)) @ drop l (col_idxs q)\<rparr>)"
    and l: "l < length (row_idxs q)" "l < length (col_idxs q)" by simp_all
  have nr: "(map (\<lambda>r. r - ro) (take l (row_idxs q)) @ drop l (row_idxs q)) ! l = row_idxs q ! l"
    using l(1) by (simp add: nth_append)
  have nc: "(map (\<lambda>c. c - co) (take l (col_idxs q)) @ drop l (col_idxs q)) ! l = col_idxs q ! l"
    using l(2) by (simp add: nth_append)
  show ?case
    unfolding for_loop_upt_Suc IH option.case
    using l offset_step_list [of l "row_idxs q" "\<lambda>r. r - ro"]
      offset_step_list [of l "col_idxs q" "\<lambda>c. c - co"]
    by (simp add: offset_edge_def nr nc)
qed

lemma offset_partition_map:
  assumes p: "p < N"
    and ro: "row_offset_of orow col_div nrows (of_nat p) = Some ro"
    and co: "col_offset_of ocol col_div ncols (of_nat p) = Some co"
    and lens: "length (row_idxs (F p)) = unat (num_edges (F p))"
              "length (col_idxs (F p)) = unat (num_edges (F p))"
  shows "offset_partition orow ocol col_div nrows ncols p (map F [0..<N]) =
           Some (map (\<lambda>q. if q = p
                           then (F q)\<lparr>row_idxs := map (\<lambda>r. r - ro) (row_idxs (F q)),
                                       col_idxs := map (\<lambda>c. c - co) (col_idxs (F q))\<rparr>
                           else F q) [0..<N])"
proof -
  let ?q' = "(F p)\<lparr>row_idxs := map (\<lambda>r. r - ro) (row_idxs (F p)),
                    col_idxs := map (\<lambda>c. c - co) (col_idxs (F p))\<rparr>"
  have loop: "for_loop [0..<unat (num_edges (F p))] (offset_edge ro co) (F p) = Some ?q'"
    using offset_edges_loop [of "unat (num_edges (F p))" "F p" ro co] lens by simp
  have "(map F [0..<N])[p := ?q'] =
        map (\<lambda>q. if q = p
                  then (F q)\<lparr>row_idxs := map (\<lambda>r. r - ro) (row_idxs (F q)),
                              col_idxs := map (\<lambda>c. c - co) (col_idxs (F q))\<rparr>
                  else F q) [0..<N]"
    by (rule nth_equalityI) (auto simp: nth_list_update)
  then show ?thesis using p by (simp add: offset_partition_def ro co loop)
qed

lemma offset_pass:
  assumes offs: "\<forall>p<N. row_offset_of orow col_div nrows (of_nat p) = Some (ro p) \<and>
                       col_offset_of ocol col_div ncols (of_nat p) = Some (co p)"
    and lens: "\<forall>p<N. length (row_idxs (F p)) = unat (num_edges (F p)) \<and>
                       length (col_idxs (F p)) = unat (num_edges (F p))"
    and k: "k \<le> N"
  shows "for_loop [0..<k] (offset_partition orow ocol col_div nrows ncols) (map F [0..<N]) =
           Some (map (\<lambda>q. if q < k
                           then (F q)\<lparr>row_idxs := map (\<lambda>r. r - ro q) (row_idxs (F q)),
                                       col_idxs := map (\<lambda>c. c - co q) (col_idxs (F q))\<rparr>
                           else F q) [0..<N])"
  using k
proof (induction k)
  case 0
  show ?case by simp
next
  case (Suc k)
  let ?G = "\<lambda>k q. if q < k
                   then (F q)\<lparr>row_idxs := map (\<lambda>r. r - ro q) (row_idxs (F q)),
                               col_idxs := map (\<lambda>c. c - co q) (col_idxs (F q))\<rparr>
                   else F q"
  from Suc have IH: "for_loop [0..<k] (offset_partition orow ocol col_div nrows ncols) (map F [0..<N]) =
           Some (map (?G k) [0..<N])"
    and k: "k < N" by simp_all
  have step: "offset_partition orow ocol col_div nrows ncols k (map (?G k) [0..<N]) =
        Some (map (\<lambda>q. if q = k
                        then (?G k q)\<lparr>row_idxs := map (\<lambda>r. r - ro k) (row_idxs (?G k q)),
                                       col_idxs := map (\<lambda>c. c - co k) (col_idxs (?G k q))\<rparr>
                        else ?G k q) [0..<N])"
    using offs lens k by (intro offset_partition_map) simp_all
  have "(\<lambda>q. if q = k
              then (?G k q)\<lparr>row_idxs := map (\<lambda>r. r - ro k) (row_idxs (?G k q)),
                             col_idxs := map (\<lambda>c. c - co k) (col_idxs (?G k q))\<rparr>
              else ?G k q) = ?G (Suc k)"
    by (rule ext) (auto simp: less_Suc_eq)
  then show ?case unfolding for_loop_upt_Suc IH option.case step by simp
qed

text \<open>
  The result of \<^verbatim>\<open>partition_coo\<close> when the shape is defined, every edge has a partition
  index \<open>b i\<close> below \<open>n\<close> and every partition has its offsets: partition \<open>p\<close> holds the edges
  with index \<open>p\<close>, in the order of the input, each rebased by the partition's offsets.
\<close>

lemma partition_coo_run:
  assumes shape: "partition_shape coo n prt = Some (nrows, ncols, col_div, orow, ocol)"
    and lens: "length (row_idxs coo) = unat (num_edges coo)"
              "length (col_idxs coo) = unat (num_edges coo)"
    and idx: "\<forall>i<unat (num_edges coo).
                part_index prt nrows ncols col_div (row_idxs coo ! i) (col_idxs coo ! i) = Some (b i) \<and>
                unat (b i) < unat n"
    and offs: "\<forall>p<unat n. row_offset_of orow col_div nrows (of_nat p) = Some (ro p) \<and>
                           col_offset_of ocol col_div ncols (of_nat p) = Some (co p)"
  shows "partition_coo coo n prt =
           Some (map (\<lambda>p. \<lparr>num_rows = nrows, num_cols = ncols,
                            num_edges = of_nat (length (part_members b (unat (num_edges coo)) p)),
                            row_idxs = map (\<lambda>j. row_idxs coo ! j - ro p)
                                           (part_members b (unat (num_edges coo)) p),
                            col_idxs = map (\<lambda>j. col_idxs coo ! j - co p)
                                           (part_members b (unat (num_edges coo)) p)\<rparr>)
                     [0..<unat n])"
proof -
  let ?m = "unat (num_edges coo)" and ?N = "unat n"
  let ?rs = "row_idxs coo" and ?cs = "col_idxs coo"
  let ?z = "\<lparr>num_rows = 0, num_cols = 0, num_edges = 0, row_idxs = [], col_idxs = []\<rparr> :: COO"
  have m: "?m < 4294967296" by (rule unat_u32_bound)
  have bN: "\<forall>i<?m. unat (b i) < ?N" using idx by simp
  let ?counted = "map (\<lambda>p. \<lparr>num_rows = 0, num_cols = 0,
                          num_edges = of_nat (length (part_members b ?m p)),
                          row_idxs = [], col_idxs = []\<rparr> :: COO) [0..<?N]"
  have count: "(case prt of
          Row \<Rightarrow> for_loop [0..<?m] (\<lambda>i prts. do {
              row_idx \<leftarrow> rd ?rs i;
              p \<leftarrow> udiv row_idx nrows;
              count_edge prts p }) (replicate ?N ?z)
        | Col \<Rightarrow> for_loop [0..<?m] (\<lambda>i prts. do {
              col_idx \<leftarrow> rd ?cs i;
              p \<leftarrow> udiv col_idx ncols;
              count_edge prts p }) (replicate ?N ?z)
        | P2D \<Rightarrow> for_loop [0..<?m] (\<lambda>i prts. do {
              row_idx \<leftarrow> rd ?rs i;
              p_row \<leftarrow> udiv row_idx nrows;
              col_idx \<leftarrow> rd ?cs i;
              p_col \<leftarrow> udiv col_idx ncols;
              count_edge prts (p_row * col_div + p_col) }) (replicate ?N ?z)) = Some ?counted"
  proof -
    have "for_loop [0..<?m] (\<lambda>i prts. count_edge prts (b i)) (replicate ?N ?z) = Some ?counted"
      using bN by (rule count_pass) simp
    moreover have "(case prt of
          Row \<Rightarrow> for_loop [0..<?m] (\<lambda>i prts. do {
              row_idx \<leftarrow> rd ?rs i;
              p \<leftarrow> udiv row_idx nrows;
              count_edge prts p }) (replicate ?N ?z)
        | Col \<Rightarrow> for_loop [0..<?m] (\<lambda>i prts. do {
              col_idx \<leftarrow> rd ?cs i;
              p \<leftarrow> udiv col_idx ncols;
              count_edge prts p }) (replicate ?N ?z)
        | P2D \<Rightarrow> for_loop [0..<?m] (\<lambda>i prts. do {
              row_idx \<leftarrow> rd ?rs i;
              p_row \<leftarrow> udiv row_idx nrows;
              col_idx \<leftarrow> rd ?cs i;
              p_col \<leftarrow> udiv col_idx ncols;
              count_edge prts (p_row * col_div + p_col) }) (replicate ?N ?z)) =
        for_loop [0..<?m] (\<lambda>i prts. count_edge prts (b i)) (replicate ?N ?z)"
    proof (cases prt)
      case Row
      show ?thesis unfolding Row Partition.case
        by (rule for_loop_cong) (use idx lens in \<open>auto simp: Row part_index_def\<close>)
    next
      case Col
      show ?thesis unfolding Col Partition.case
        by (rule for_loop_cong) (use idx lens in \<open>auto simp: Col part_index_def\<close>)
    next
      case P2D
      show ?thesis unfolding P2D Partition.case
        by (rule for_loop_cong)
           (use idx lens in \<open>auto simp: P2D part_index_def split: bind_splits\<close>)
    qed
    ultimately show ?thesis by simp
  qed
  have init: "map (\<lambda>q. q\<lparr>num_rows := nrows, num_cols := ncols,
                          row_idxs := replicate (unat (num_edges q)) 0,
                          col_idxs := replicate (unat (num_edges q)) 0,
                          num_edges := 0\<rparr>) ?counted =
              map (binned_part b ?rs ?cs nrows ncols ?m 0) [0..<?N]"
  proof -
    have "unat (of_nat (length (part_members b ?m p)) :: u32) = length (part_members b ?m p)" for p
      using part_members_le [of b ?m p] m by (intro unat_of_nat_u32) simp
    then show ?thesis by (simp add: binned_part_def)
  qed
  have bin: "for_loop [0..<?m] (\<lambda>i prts. do {
         row_idx \<leftarrow> rd ?rs i;
         col_idx \<leftarrow> rd ?cs i;
         p \<leftarrow> part_index prt nrows ncols col_div row_idx col_idx;
         append_edge prts p row_idx col_idx }) (map (binned_part b ?rs ?cs nrows ncols ?m 0) [0..<?N]) =
       Some (map (binned_part b ?rs ?cs nrows ncols ?m ?m) [0..<?N])"
  proof -
    have "for_loop [0..<?m] (\<lambda>i prts. do {
         row_idx \<leftarrow> rd ?rs i;
         col_idx \<leftarrow> rd ?cs i;
         p \<leftarrow> part_index prt nrows ncols col_div row_idx col_idx;
         append_edge prts p row_idx col_idx }) (map (binned_part b ?rs ?cs nrows ncols ?m 0) [0..<?N]) =
       for_loop [0..<?m] (\<lambda>i prts. append_edge prts (b i) (?rs ! i) (?cs ! i))
         (map (binned_part b ?rs ?cs nrows ncols ?m 0) [0..<?N])"
      by (rule for_loop_cong) (use idx lens in auto)
    also have "\<dots> = Some (map (binned_part b ?rs ?cs nrows ncols ?m ?m) [0..<?N])"
      using bN m by (rule bin_pass) simp
    finally show ?thesis .
  qed
  have lens3: "\<forall>p<?N. length (row_idxs (binned_part b ?rs ?cs nrows ncols ?m ?m p)) =
                       unat (num_edges (binned_part b ?rs ?cs nrows ncols ?m ?m p)) \<and>
                     length (col_idxs (binned_part b ?rs ?cs nrows ncols ?m ?m p)) =
                       unat (num_edges (binned_part b ?rs ?cs nrows ncols ?m ?m p))"
  proof (intro allI impI)
    fix p
    have "unat (of_nat (length (part_members b ?m p)) :: u32) = length (part_members b ?m p)"
      using part_members_le [of b ?m p] m by (intro unat_of_nat_u32) simp
    then show "length (row_idxs (binned_part b ?rs ?cs nrows ncols ?m ?m p)) =
                       unat (num_edges (binned_part b ?rs ?cs nrows ncols ?m ?m p)) \<and>
                     length (col_idxs (binned_part b ?rs ?cs nrows ncols ?m ?m p)) =
                       unat (num_edges (binned_part b ?rs ?cs nrows ncols ?m ?m p))"
      by (simp add: binned_part_def)
  qed
  have off: "for_loop [0..<?N] (offset_partition orow ocol col_div nrows ncols)
               (map (binned_part b ?rs ?cs nrows ncols ?m ?m) [0..<?N]) =
             Some (map (\<lambda>q. if q < ?N
                   then (binned_part b ?rs ?cs nrows ncols ?m ?m q)
                          \<lparr>row_idxs := map (\<lambda>r. r - ro q) (row_idxs (binned_part b ?rs ?cs nrows ncols ?m ?m q)),
                           col_idxs := map (\<lambda>c. c - co q) (col_idxs (binned_part b ?rs ?cs nrows ncols ?m ?m q))\<rparr>
                   else binned_part b ?rs ?cs nrows ncols ?m ?m q) [0..<?N])"
    using offs lens3 by (rule offset_pass) simp
  have final: "map (\<lambda>q. if q < ?N
                   then (binned_part b ?rs ?cs nrows ncols ?m ?m q)
                          \<lparr>row_idxs := map (\<lambda>r. r - ro q) (row_idxs (binned_part b ?rs ?cs nrows ncols ?m ?m q)),
                           col_idxs := map (\<lambda>c. c - co q) (col_idxs (binned_part b ?rs ?cs nrows ncols ?m ?m q))\<rparr>
                   else binned_part b ?rs ?cs nrows ncols ?m ?m q) [0..<?N] =
               map (\<lambda>p. \<lparr>num_rows = nrows, num_cols = ncols,
                            num_edges = of_nat (length (part_members b ?m p)),
                            row_idxs = map (\<lambda>j. ?rs ! j - ro p) (part_members b ?m p),
                            col_idxs = map (\<lambda>j. ?cs ! j - co p) (part_members b ?m p)\<rparr>) [0..<?N]"
    by (rule map_cong) (simp_all add: binned_part_def comp_def)
  show ?thesis
    unfolding partition_coo_def Let_def
    by (simp only: shape Option.bind.simps prod.case count init bin off final)
qed

subsection \<open>Partitioning: the partition index of an edge\<close>

lemma chunk_index_bound:
  fixes D T x :: u32
  assumes "unat D dvd unat T" and "x < T"
  shows "T div D \<noteq> 0" and "unat (x div (T div D)) < unat D"
proof -
  obtain k where k: "unat T = unat D * k" using assms(1) by (auto elim: dvdE)
  have x: "unat x < unat D * k" using assms(2) k by (simp add: u32_less_iff)
  have Dpos: "0 < unat D" using x by (cases "unat D = 0") simp_all
  have kpos: "0 < k" using x by (cases "k = 0") simp_all
  have uk: "unat (T div D) = k" using k Dpos by (simp add: unat_div)
  show "T div D \<noteq> 0" using uk kpos by (simp add: u32_eq_0_iff)
  have "unat x div k < unat D" using x by (rule less_mult_imp_div_less)
  then show "unat (x div (T div D)) < unat D" by (simp only: unat_div [of x] uk)
qed

lemma grid_index:
  fixes n row_div col_div p_row p_col :: u32
  assumes prod: "unat row_div * unat col_div = unat n"
    and pr: "unat p_row < unat row_div" and pc: "unat p_col < unat col_div"
  shows "unat (p_row * col_div + p_col) = unat p_row * unat col_div + unat p_col"
    and "unat (p_row * col_div + p_col) < unat n"
    and "(p_row * col_div + p_col) div col_div = p_row"
    and "(p_row * col_div + p_col) mod col_div = p_col"
proof -
  let ?C = "unat col_div"
  have "Suc (unat p_row) \<le> unat row_div" using pr by simp
  then have "Suc (unat p_row) * ?C \<le> unat row_div * ?C" by (rule mult_le_mono1)
  then have lt: "unat p_row * ?C + unat p_col < unat n" using pc prod by simp
  then have small: "unat p_row * ?C + unat p_col < 4294967296"
    using unat_u32_bound [of n] by simp
  then have m: "unat (p_row * col_div) = unat p_row * ?C" by (intro unat_mult_u32) simp
  show u: "unat (p_row * col_div + p_col) = unat p_row * ?C + unat p_col"
    using unat_add_u32 [of "p_row * col_div" p_col] small by (simp add: m)
  show "unat (p_row * col_div + p_col) < unat n" using lt u by simp
  have "unat ((p_row * col_div + p_col) div col_div) = unat p_row"
    using pc by (simp add: unat_div u)
  then show "(p_row * col_div + p_col) div col_div = p_row" by (simp add: word_unat_eq_iff)
  have "unat ((p_row * col_div + p_col) mod col_div) = unat p_col"
    using pc by (simp add: unat_mod u)
  then show "(p_row * col_div + p_col) mod col_div = p_col" by (simp add: word_unat_eq_iff)
qed



lemma grid_shape:
  assumes nf: "nearest_factors n = Some (row_div, col_div)"
    and nz: "row_div \<noteq> 0" "col_div \<noteq> 0"
    and prod: "unat row_div * unat col_div = unat n"
    and dvd: "unat n dvd unat (num_rows coo)" "unat n dvd unat (num_cols coo)"
    and rows: "\<forall>i<unat (num_edges coo). row_idxs coo ! i < num_rows coo"
    and cols: "\<forall>i<unat (num_edges coo). col_idxs coo ! i < num_cols coo"
  shows "partition_shape coo n P2D =
           Some (num_rows coo div row_div, num_cols coo div col_div, col_div, True, True)"
    and "\<forall>i<unat (num_edges coo).
           part_index P2D (num_rows coo div row_div) (num_cols coo div col_div) col_div
               (row_idxs coo ! i) (col_idxs coo ! i) =
             Some (row_idxs coo ! i div (num_rows coo div row_div) * col_div +
                   col_idxs coo ! i div (num_cols coo div col_div)) \<and>
           unat (row_idxs coo ! i div (num_rows coo div row_div)) < unat row_div \<and>
           unat (col_idxs coo ! i div (num_cols coo div col_div)) < unat col_div \<and>
           unat (row_idxs coo ! i div (num_rows coo div row_div) * col_div +
                 col_idxs coo ! i div (num_cols coo div col_div)) < unat n"
    and "\<forall>p<unat n. row_offset_of True col_div (num_rows coo div row_div) (of_nat p) =
                        Some (of_nat p div col_div * (num_rows coo div row_div)) \<and>
                     col_offset_of True col_div (num_cols coo div col_div) (of_nat p) =
                        Some (of_nat p mod col_div * (num_cols coo div col_div))"
proof -
  have "unat row_div dvd unat n" and "unat col_div dvd unat n"
    using prod by (metis dvd_triv_left, metis dvd_triv_right)
  then have dr: "unat row_div dvd unat (num_rows coo)" and dc: "unat col_div dvd unat (num_cols coo)"
    using dvd by (auto elim: dvd_trans)
  show "partition_shape coo n P2D =
           Some (num_rows coo div row_div, num_cols coo div col_div, col_div, True, True)"
    using nf nz by (simp add: partition_shape_def udiv_def)
  show "\<forall>i<unat (num_edges coo).
           part_index P2D (num_rows coo div row_div) (num_cols coo div col_div) col_div
               (row_idxs coo ! i) (col_idxs coo ! i) =
             Some (row_idxs coo ! i div (num_rows coo div row_div) * col_div +
                   col_idxs coo ! i div (num_cols coo div col_div)) \<and>
           unat (row_idxs coo ! i div (num_rows coo div row_div)) < unat row_div \<and>
           unat (col_idxs coo ! i div (num_cols coo div col_div)) < unat col_div \<and>
           unat (row_idxs coo ! i div (num_rows coo div row_div) * col_div +
                 col_idxs coo ! i div (num_cols coo div col_div)) < unat n"
  proof (intro allI impI)
    fix i assume i: "i < unat (num_edges coo)"
    have "row_idxs coo ! i < num_rows coo" using rows i by simp
    from chunk_index_bound [OF dr this]
    have r: "num_rows coo div row_div \<noteq> 0"
            "unat (row_idxs coo ! i div (num_rows coo div row_div)) < unat row_div" .
    have "col_idxs coo ! i < num_cols coo" using cols i by simp
    from chunk_index_bound [OF dc this]
    have c: "num_cols coo div col_div \<noteq> 0"
            "unat (col_idxs coo ! i div (num_cols coo div col_div)) < unat col_div" .
    show "part_index P2D (num_rows coo div row_div) (num_cols coo div col_div) col_div
               (row_idxs coo ! i) (col_idxs coo ! i) =
             Some (row_idxs coo ! i div (num_rows coo div row_div) * col_div +
                   col_idxs coo ! i div (num_cols coo div col_div)) \<and>
           unat (row_idxs coo ! i div (num_rows coo div row_div)) < unat row_div \<and>
           unat (col_idxs coo ! i div (num_cols coo div col_div)) < unat col_div \<and>
           unat (row_idxs coo ! i div (num_rows coo div row_div) * col_div +
                 col_idxs coo ! i div (num_cols coo div col_div)) < unat n"
      using r c grid_index(2) [OF prod r(2) c(2)] by (simp add: part_index_def udiv_def)
  qed
  show "\<forall>p<unat n. row_offset_of True col_div (num_rows coo div row_div) (of_nat p) =
                        Some (of_nat p div col_div * (num_rows coo div row_div)) \<and>
                     col_offset_of True col_div (num_cols coo div col_div) (of_nat p) =
                        Some (of_nat p mod col_div * (num_cols coo div col_div))"
    using nz by (simp add: row_offset_of_def col_offset_of_def udiv_def umod_def)
qed

subsection \<open>Partitioning: every edge in exactly one partition\<close>

lemma sum_part_members:
  assumes "\<forall>j<m. unat (b j) < N"
  shows "(\<Sum>p<N. mset (map h (part_members b m p))) = mset (map h [0..<m])"
  using assms
proof (induction m)
  case 0
  show ?case by simp
next
  case (Suc m)
  have bm: "unat (b m) \<in> {..<N}" using Suc.prems by simp
  have "(\<Sum>p<N. mset (map h (part_members b (Suc m) p))) =
        (\<Sum>p<N. mset (map h (part_members b m p)) + (if p = unat (b m) then {#h m#} else {#}))"
    by (rule sum.cong) (auto simp: part_members_Suc)
  also have "\<dots> = (\<Sum>p<N. mset (map h (part_members b m p))) +
                   (\<Sum>p<N. if p = unat (b m) then {#h m#} else {#})"
    by (rule sum.distrib)
  also have "(\<Sum>p<N. if p = unat (b m) then {#h m#} else {#}) = {#h m#}"
    using bm by (simp add: sum.delta)
  also have "(\<Sum>p<N. mset (map h (part_members b m p))) = mset (map h [0..<m])"
    using Suc.prems by (intro Suc.IH) simp
  finally show ?case by simp
qed

lemma zip_as_map_nth:
  assumes "length xs = m" and "length ys = m"
  shows "zip xs ys = map (\<lambda>j. (xs ! j, ys ! j)) [0..<m]"
  using assms by (intro nth_equalityI) simp_all

lemma unrebase_rebased:
  assumes "row_offset_of orow col_div nrows (of_nat p) = Some ro"
    and "col_offset_of ocol col_div ncols (of_nat p) = Some co"
  shows "unrebase orow ocol col_div nrows ncols p
           \<lparr>num_rows = nr, num_cols = nc, num_edges = ne,
            row_idxs = map (\<lambda>j. rs ! j - ro) J, col_idxs = map (\<lambda>j. cs ! j - co) J\<rparr> =
         map (\<lambda>j. (rs ! j, cs ! j)) J"
  using assms by (simp add: unrebase_def zip_map_map zip_same_conv_map)

lemma partition_coo_edges:
  assumes shape: "partition_shape coo n prt = Some (nrows, ncols, col_div, orow, ocol)"
    and lens: "length (row_idxs coo) = unat (num_edges coo)"
              "length (col_idxs coo) = unat (num_edges coo)"
    and idx: "\<forall>i<unat (num_edges coo).
                part_index prt nrows ncols col_div (row_idxs coo ! i) (col_idxs coo ! i) = Some (b i) \<and>
                unat (b i) < unat n"
    and offs: "\<forall>p<unat n. row_offset_of orow col_div nrows (of_nat p) = Some (ro p) \<and>
                           col_offset_of ocol col_div ncols (of_nat p) = Some (co p)"
  shows "\<exists>prts. partition_coo coo n prt = Some prts \<and> length prts = unat n \<and>
           (\<forall>p<unat n. unrebase orow ocol col_div nrows ncols p (prts ! p) =
                          map (\<lambda>j. (row_idxs coo ! j, col_idxs coo ! j))
                              (part_members b (unat (num_edges coo)) p))"
proof -
  let ?prts = "map (\<lambda>p. \<lparr>num_rows = nrows, num_cols = ncols,
                            num_edges = of_nat (length (part_members b (unat (num_edges coo)) p)),
                            row_idxs = map (\<lambda>j. row_idxs coo ! j - ro p)
                                           (part_members b (unat (num_edges coo)) p),
                            col_idxs = map (\<lambda>j. col_idxs coo ! j - co p)
                                           (part_members b (unat (num_edges coo)) p)\<rparr>)
                     [0..<unat n]"
  have run: "partition_coo coo n prt = Some ?prts"
    using shape lens idx offs by (rule partition_coo_run)
  have "unrebase orow ocol col_div nrows ncols p (?prts ! p) =
          map (\<lambda>j. (row_idxs coo ! j, col_idxs coo ! j)) (part_members b (unat (num_edges coo)) p)"
    if "p < unat n" for p
    using that offs by (simp add: unrebase_rebased)
  then show ?thesis using run by simp
qed




subsection \<open>Grid addressing\<close>

lemma grid_decode:
  fixes n row_div col_div p_row p_col :: u32
  assumes prod: "unat row_div * unat col_div = unat n" and nz: "col_div \<noteq> 0"
    and pr: "p_row < row_div" and pc: "p_col < col_div"
  shows "p_row * col_div + p_col < n \<and>
         unat (p_row * col_div + p_col) = unat p_row * unat col_div + unat p_col \<and>
         row_offset_of True col_div nrows (p_row * col_div + p_col) = Some (p_row * nrows) \<and>
         col_offset_of True col_div ncols (p_row * col_div + p_col) = Some (p_col * ncols) \<and>
         start_2d_cf_index (p_row * col_div + p_col) col_div len_cf = Some (p_row * len_cf)"
proof -
  have pr': "unat p_row < unat row_div" and pc': "unat p_col < unat col_div"
    using pr pc by (simp_all add: u32_less_iff)
  note g = grid_index [OF prod pr' pc']
  show ?thesis
    using g nz
    by (simp add: u32_less_iff row_offset_of_def col_offset_of_def start_2d_cf_index_def
        udiv_def umod_def)
qed

lemma grid_index_unique:
  fixes n row_div col_div a b a' b' :: u32
  assumes prod: "unat row_div * unat col_div = unat n"
    and a: "unat a < unat row_div" and b: "unat b < unat col_div"
    and a': "unat a' < unat row_div" and b': "unat b' < unat col_div"
  shows "unat (a * col_div + b) = unat (a' * col_div + b') \<longleftrightarrow> a = a' \<and> b = b'"
proof
  assume "unat (a * col_div + b) = unat (a' * col_div + b')"
  then have e: "a * col_div + b = a' * col_div + b'" by (simp add: word_unat_eq_iff)
  have "(a * col_div + b) div col_div = a" "(a * col_div + b) mod col_div = b"
    by (rule grid_index [OF prod a b])+
  moreover have "(a' * col_div + b') div col_div = a'" "(a' * col_div + b') mod col_div = b'"
    by (rule grid_index [OF prod a' b'])+
  ultimately show "a = a' \<and> b = b'" unfolding e by simp
next
  assume "a = a' \<and> b = b'"
  then show "unat (a * col_div + b) = unat (a' * col_div + b')" by simp
qed

lemma unrebase_stored:
  assumes "row_offset_of orow col_div nrows (of_nat p) = Some ro"
    and "col_offset_of ocol col_div ncols (of_nat p) = Some co"
  shows "zip (row_idxs q) (col_idxs q) =
         map (\<lambda>(r, c). (r - ro, c - co)) (unrebase orow ocol col_div nrows ncols p q)"
proof -
  have "map (\<lambda>(r, c). (r - ro, c - co))
          (map (\<lambda>(r, c). (r + ro, c + co)) (zip (row_idxs q) (col_idxs q))) =
        zip (row_idxs q) (col_idxs q)"
    by (simp add: case_prod_unfold o_def)
  then show ?thesis using assms by (simp add: unrebase_def)
qed

text \<open>
  C5. In the 2-D topology with grid column count \<open>col_div\<close>, \<^verbatim>\<open>partition_coo\<close> assigns every
  edge \<open>(r, c)\<close> of the input to the unit \<open>p = p_row * col_div + p_col\<close> of its grid row
  \<open>p_row = r / num_rows\<close> and grid column \<open>p_col = c / num_cols\<close>: the edge is stored in that
  unit, and every edge stored in a unit \<open>p\<close> has this index \<open>p\<close>. Each unit holds, in input
  order, exactly the input edges with its index, and the unit at grid position
  \<open>(p_row, p_col)\<close> stores them rebased by \<open>p_row * num_rows\<close> and \<open>p_col * num_cols\<close>, the
  offsets the code gets from \<open>i / col_div\<close> and \<open>i % col_div\<close>. \<^verbatim>\<open>start_2d\<close> sends that unit
  the slice of the current frontier that starts at \<open>p_row * len_cf\<close>.
\<close>

theorem grid_addressing_row_major:
  assumes "n \<noteq> 0"
    and "unat n dvd unat (num_rows coo)" and "unat n dvd unat (num_cols coo)"
    and "length (row_idxs coo) = unat (num_edges coo)"
    and "length (col_idxs coo) = unat (num_edges coo)"
    and "list_all (\<lambda>r. r < num_rows coo) (row_idxs coo)"
    and "list_all (\<lambda>c. c < num_cols coo) (col_idxs coo)"
  shows "\<exists>prts row_div col_div nrows ncols.
           nearest_factors n = Some (row_div, col_div) \<and>
           partition_shape coo n P2D = Some (nrows, ncols, col_div, True, True) \<and>
           partition_coo coo n P2D = Some prts \<and> length prts = unat n \<and>
           (\<forall>p<unat n. \<forall>(r, c)\<in>set (unrebase True True col_div nrows ncols p (prts ! p)).
               r div nrows < row_div \<and> c div ncols < col_div \<and>
               p = unat (r div nrows * col_div + c div ncols)) \<and>
           (\<forall>j<unat (num_edges coo).
               row_idxs coo ! j div nrows < row_div \<and> col_idxs coo ! j div ncols < col_div \<and>
               unat (row_idxs coo ! j div nrows * col_div + col_idxs coo ! j div ncols) < unat n \<and>
               (row_idxs coo ! j, col_idxs coo ! j) \<in>
                 set (unrebase True True col_div nrows ncols
                        (unat (row_idxs coo ! j div nrows * col_div + col_idxs coo ! j div ncols))
                        (prts ! unat (row_idxs coo ! j div nrows * col_div +
                                      col_idxs coo ! j div ncols)))) \<and>
           (\<forall>p<unat n. unrebase True True col_div nrows ncols p (prts ! p) =
               filter (\<lambda>(r, c). unat (r div nrows * col_div + c div ncols) = p)
                 (zip (row_idxs coo) (col_idxs coo))) \<and>
           (\<forall>p_row p_col. p_row < row_div \<and> p_col < col_div \<longrightarrow>
               zip (row_idxs (prts ! unat (p_row * col_div + p_col)))
                   (col_idxs (prts ! unat (p_row * col_div + p_col))) =
               map (\<lambda>(r, c). (r - p_row * nrows, c - p_col * ncols))
                 (filter (\<lambda>(r, c). r div nrows = p_row \<and> c div ncols = p_col)
                    (zip (row_idxs coo) (col_idxs coo)))) \<and>
           (\<forall>p_row p_col. p_row < row_div \<and> p_col < col_div \<longrightarrow>
               p_row * col_div + p_col < n \<and>
               unat (p_row * col_div + p_col) = unat p_row * unat col_div + unat p_col \<and>
               row_offset_of True col_div nrows (p_row * col_div + p_col) = Some (p_row * nrows) \<and>
               col_offset_of True col_div ncols (p_row * col_div + p_col) = Some (p_col * ncols) \<and>
               start_2d_cf_index (p_row * col_div + p_col) col_div len_cf = Some (p_row * len_cf))"
proof -
  let ?m = "unat (num_edges coo)"
  have rows: "\<forall>i<?m. row_idxs coo ! i < num_rows coo"
    using assms(4,6) by (simp add: list_all_length)
  have cols: "\<forall>i<?m. col_idxs coo ! i < num_cols coo"
    using assms(5,7) by (simp add: list_all_length)
  from nearest_factors_spec [OF assms(1)]
  obtain row_div col_div where nf: "nearest_factors n = Some (row_div, col_div)"
    "row_div \<noteq> 0" "col_div \<noteq> 0" "unat row_div * unat col_div = unat n" by blast
  let ?nr = "num_rows coo div row_div" and ?nc = "num_cols coo div col_div"
  let ?f = "\<lambda>j. (row_idxs coo ! j, col_idxs coo ! j)"
  define b where "b i = row_idxs coo ! i div ?nr * col_div + col_idxs coo ! i div ?nc" for i
  note gs = grid_shape [OF nf assms(2,3) rows cols]
  have shape: "partition_shape coo n P2D = Some (?nr, ?nc, col_div, True, True)" by (rule gs(1))
  have idx: "\<forall>i<?m. part_index P2D ?nr ?nc col_div (row_idxs coo ! i) (col_idxs coo ! i) = Some (b i) \<and>
               unat (b i) < unat n"
    using gs(2) by (simp add: b_def)
  have bnd: "\<forall>i<?m. unat (row_idxs coo ! i div ?nr) < unat row_div \<and>
                     unat (col_idxs coo ! i div ?nc) < unat col_div"
    using gs(2) by simp
  from partition_coo_edges [OF shape assms(4,5) idx gs(3)]
  obtain prts where prts: "partition_coo coo n P2D = Some prts" "length prts = unat n"
    "\<forall>p<unat n. unrebase True True col_div ?nr ?nc p (prts ! p) =
                   map ?f (part_members b ?m p)" by blast
  have stored: "\<forall>p<unat n. \<forall>(r, c)\<in>set (unrebase True True col_div ?nr ?nc p (prts ! p)).
               r div ?nr < row_div \<and> c div ?nc < col_div \<and>
               p = unat (r div ?nr * col_div + c div ?nc)"
  proof (intro allI impI ballI)
    fix p e
    assume p: "p < unat n" and e: "e \<in> set (unrebase True True col_div ?nr ?nc p (prts ! p))"
    then obtain j where j: "j \<in> set (part_members b ?m p)"
      and ej: "e = (row_idxs coo ! j, col_idxs coo ! j)"
      using prts(3) by auto
    have jm: "j < ?m" and bj: "unat (b j) = p" using part_members_in [OF j] by simp_all
    have "unat (row_idxs coo ! j div ?nr) < unat row_div"
         "unat (col_idxs coo ! j div ?nc) < unat col_div"
      using bnd jm by simp_all
    then show "case e of (r, c) \<Rightarrow>
               r div ?nr < row_div \<and> c div ?nc < col_div \<and>
               p = unat (r div ?nr * col_div + c div ?nc)"
      using bj by (simp add: ej u32_less_iff b_def)
  qed
  have assigned: "\<forall>j<?m.
               row_idxs coo ! j div ?nr < row_div \<and> col_idxs coo ! j div ?nc < col_div \<and>
               unat (row_idxs coo ! j div ?nr * col_div + col_idxs coo ! j div ?nc) < unat n \<and>
               (row_idxs coo ! j, col_idxs coo ! j) \<in>
                 set (unrebase True True col_div ?nr ?nc
                        (unat (row_idxs coo ! j div ?nr * col_div + col_idxs coo ! j div ?nc))
                        (prts ! unat (row_idxs coo ! j div ?nr * col_div +
                                      col_idxs coo ! j div ?nc)))"
  proof (intro allI impI)
    fix j assume jm: "j < ?m"
    have pn: "unat (b j) < unat n" using idx jm by simp
    have "j \<in> set (part_members b ?m (unat (b j)))" using jm by (simp add: part_members_def)
    then have "?f j \<in> set (map ?f (part_members b ?m (unat (b j))))" by (rule imageI [THEN set_map [THEN equalityD2, THEN subsetD]])
    then have mem: "?f j \<in> set (unrebase True True col_div ?nr ?nc (unat (b j)) (prts ! unat (b j)))"
      using prts(3) pn by simp
    show "row_idxs coo ! j div ?nr < row_div \<and> col_idxs coo ! j div ?nc < col_div \<and>
               unat (row_idxs coo ! j div ?nr * col_div + col_idxs coo ! j div ?nc) < unat n \<and>
               (row_idxs coo ! j, col_idxs coo ! j) \<in>
                 set (unrebase True True col_div ?nr ?nc
                        (unat (row_idxs coo ! j div ?nr * col_div + col_idxs coo ! j div ?nc))
                        (prts ! unat (row_idxs coo ! j div ?nr * col_div +
                                      col_idxs coo ! j div ?nc)))"
      using bnd jm pn mem unfolding b_def by (simp add: u32_less_iff)
  qed
  have z: "zip (row_idxs coo) (col_idxs coo) = map ?f [0..<?m]"
    by (rule zip_as_map_nth [OF assms(4,5)])
  have members: "\<forall>p<unat n. unrebase True True col_div ?nr ?nc p (prts ! p) =
               filter (\<lambda>(r, c). unat (r div ?nr * col_div + c div ?nc) = p)
                 (zip (row_idxs coo) (col_idxs coo))"
  proof (intro allI impI)
    fix p assume p: "p < unat n"
    have "filter (\<lambda>(r, c). unat (r div ?nr * col_div + c div ?nc) = p) (map ?f [0..<?m]) =
          map ?f (filter (\<lambda>j. unat (b j) = p) [0..<?m])"
      by (simp add: filter_map o_def b_def)
    then show "unrebase True True col_div ?nr ?nc p (prts ! p) =
               filter (\<lambda>(r, c). unat (r div ?nr * col_div + c div ?nc) = p)
                 (zip (row_idxs coo) (col_idxs coo))"
      using prts(3) p by (simp add: z part_members_def)
  qed
  have decode: "\<forall>p_row p_col. p_row < row_div \<and> p_col < col_div \<longrightarrow>
               p_row * col_div + p_col < n \<and>
               unat (p_row * col_div + p_col) = unat p_row * unat col_div + unat p_col \<and>
               row_offset_of True col_div ?nr (p_row * col_div + p_col) = Some (p_row * ?nr) \<and>
               col_offset_of True col_div ?nc (p_row * col_div + p_col) = Some (p_col * ?nc) \<and>
               start_2d_cf_index (p_row * col_div + p_col) col_div len_cf = Some (p_row * len_cf)"
    using grid_decode [OF nf(4) nf(3)] by blast
  have held: "\<forall>p_row p_col. p_row < row_div \<and> p_col < col_div \<longrightarrow>
               zip (row_idxs (prts ! unat (p_row * col_div + p_col)))
                   (col_idxs (prts ! unat (p_row * col_div + p_col))) =
               map (\<lambda>(r, c). (r - p_row * ?nr, c - p_col * ?nc))
                 (filter (\<lambda>(r, c). r div ?nr = p_row \<and> c div ?nc = p_col)
                    (zip (row_idxs coo) (col_idxs coo)))"
  proof (intro allI impI)
    fix p_row p_col :: u32
    assume pp: "p_row < row_div \<and> p_col < col_div"
    let ?p = "unat (p_row * col_div + p_col)"
    have pr: "unat p_row < unat row_div" and pc: "unat p_col < unat col_div"
      using pp by (simp_all add: u32_less_iff)
    have pn: "?p < unat n" by (rule grid_index(2) [OF nf(4) pr pc])
    have d: "row_offset_of True col_div ?nr (of_nat ?p) = Some (p_row * ?nr)"
            "col_offset_of True col_div ?nc (of_nat ?p) = Some (p_col * ?nc)"
      using grid_decode [OF nf(4) nf(3), of p_row p_col ?nr ?nc len_cf] pp by simp_all
    have same: "filter (\<lambda>(r, c). unat (r div ?nr * col_div + c div ?nc) = ?p)
                  (zip (row_idxs coo) (col_idxs coo)) =
                filter (\<lambda>(r, c). r div ?nr = p_row \<and> c div ?nc = p_col)
                  (zip (row_idxs coo) (col_idxs coo))"
    proof (rule filter_cong [OF refl])
      fix e assume "e \<in> set (zip (row_idxs coo) (col_idxs coo))"
      then obtain j where jm: "j < ?m" and ej: "e = ?f j" unfolding z by auto
      have "unat (row_idxs coo ! j div ?nr) < unat row_div"
           "unat (col_idxs coo ! j div ?nc) < unat col_div"
        using bnd jm by simp_all
      from grid_index_unique [OF nf(4) this pr pc]
      show "(case e of (r, c) \<Rightarrow> unat (r div ?nr * col_div + c div ?nc) = ?p) =
            (case e of (r, c) \<Rightarrow> r div ?nr = p_row \<and> c div ?nc = p_col)"
        by (simp add: ej)
    qed
    show "zip (row_idxs (prts ! ?p)) (col_idxs (prts ! ?p)) =
               map (\<lambda>(r, c). (r - p_row * ?nr, c - p_col * ?nc))
                 (filter (\<lambda>(r, c). r div ?nr = p_row \<and> c div ?nc = p_col)
                    (zip (row_idxs coo) (col_idxs coo)))"
      using unrebase_stored [OF d, of "prts ! ?p"] members pn same by simp
  qed
  show ?thesis
    apply (rule exI [where x = prts])
    apply (rule exI [where x = row_div])
    apply (rule exI [where x = col_div])
    apply (rule exI [where x = ?nr])
    apply (rule exI [where x = ?nc])
    apply (intro conjI)
            apply (rule nf(1))
           apply (rule shape)
          apply (rule prts(1))
         apply (rule prts(2))
        apply (rule stored)
       apply (rule assigned)
      apply (rule members)
     apply (rule held)
    apply (rule decode)
    done
qed

theorem grid_addressing_row_major_witness:
  "(4::u32) \<noteq> 0 \<and> unat (4::u32) dvd unat (8::u32) \<and>
   length [0, 0, 1, 2, 7::u32] = unat (5::u32) \<and> length [1, 2, 3, 3, 4::u32] = unat (5::u32) \<and>
   list_all (\<lambda>r. r < (8::u32)) [0, 0, 1, 2, 7] \<and> list_all (\<lambda>c. c < (8::u32)) [1, 2, 3, 3, 4] \<and>
   nearest_factors 4 = Some (2, 2) \<and>
   partition_shape \<lparr>num_rows = 8, num_cols = 8, num_edges = 5,
                     row_idxs = [0, 0, 1, 2, 7], col_idxs = [1, 2, 3, 3, 4]\<rparr> 4 P2D =
     Some (4, 4, 2, True, True) \<and>
   map_option (map (\<lambda>q. zip (row_idxs q) (col_idxs q)))
     (partition_coo \<lparr>num_rows = 8, num_cols = 8, num_edges = 5,
                      row_idxs = [0, 0, 1, 2, 7], col_idxs = [1, 2, 3, 3, 4]\<rparr> 4 P2D) =
     Some [[(0, 1), (0, 2), (1, 3), (2, 3)], [], [], [(3, 0)]] \<and>
   map_option (\<lambda>prts. unrebase True True 2 4 4 3 (prts ! 3))
     (partition_coo \<lparr>num_rows = 8, num_cols = 8, num_edges = 5,
                      row_idxs = [0, 0, 1, 2, 7], col_idxs = [1, 2, 3, 3, 4]\<rparr> 4 P2D) =
     Some [(7, 4)] \<and>
   filter (\<lambda>(r, c). unat (r div 4 * 2 + c div 4) = 3)
     (zip [0, 0, 1, 2, 7::u32] [1, 2, 3, 3, 4::u32]) = [(7, 4)] \<and>
   map (\<lambda>(r, c). (r - 1 * 4, c - 1 * 4))
     (filter (\<lambda>(r, c). r div 4 = 1 \<and> c div 4 = 1)
        (zip [0, 0, 1, 2, 7::u32] [1, 2, 3, 3, 4::u32])) = [(3, 0)] \<and>
   (7::u32) div 4 < 2 \<and> (4::u32) div 4 < 2 \<and> (3::nat) = unat ((7::u32) div 4 * 2 + 4 div 4) \<and>
   (1::u32) < 2 \<and> (1::u32) * 2 + 1 < 4 \<and>
   row_offset_of True 2 4 (1 * 2 + 1) = Some (1 * 4) \<and>
   col_offset_of True 2 4 (1 * 2 + 1) = Some (1 * 4) \<and>
   start_2d_cf_index (1 * 2 + 1) 2 16 = Some (1 * 16)"
proof -
  have ev: "nearest_factors 4 = Some (2, 2)"
    "partition_shape \<lparr>num_rows = 8, num_cols = 8, num_edges = 5,
                     row_idxs = [0, 0, 1, 2, 7], col_idxs = [1, 2, 3, 3, 4]\<rparr> 4 P2D =
     Some (4, 4, 2, True, True)"
    "map_option (map (\<lambda>q. zip (row_idxs q) (col_idxs q)))
     (partition_coo \<lparr>num_rows = 8, num_cols = 8, num_edges = 5,
                      row_idxs = [0, 0, 1, 2, 7], col_idxs = [1, 2, 3, 3, 4]\<rparr> 4 P2D) =
     Some [[(0, 1), (0, 2), (1, 3), (2, 3)], [], [], [(3, 0)]]"
    "map_option (\<lambda>prts. unrebase True True 2 4 4 3 (prts ! 3))
     (partition_coo \<lparr>num_rows = 8, num_cols = 8, num_edges = 5,
                      row_idxs = [0, 0, 1, 2, 7], col_idxs = [1, 2, 3, 3, 4]\<rparr> 4 P2D) =
     Some [(7, 4)]"
    "filter (\<lambda>(r, c). unat (r div 4 * 2 + c div 4) = 3)
     (zip [0, 0, 1, 2, 7::u32] [1, 2, 3, 3, 4::u32]) = [(7, 4)]"
    "map (\<lambda>(r, c). (r - 1 * 4, c - 1 * 4))
     (filter (\<lambda>(r, c). r div 4 = 1 \<and> c div 4 = 1)
        (zip [0, 0, 1, 2, 7::u32] [1, 2, 3, 3, 4::u32])) = [(3, 0)]"
    by code_simp+
  show ?thesis
    using grid_addressing_row_major [of 4 "\<lparr>num_rows = 8, num_cols = 8, num_edges = 5,
                   row_idxs = [0, 0, 1, 2, 7], col_idxs = [1, 2, 3, 3, 4]\<rparr>" 16] ev
    by (simp add: row_offset_of_def col_offset_of_def start_2d_cf_index_def udiv_def umod_def)
qed

subsection \<open>The call sites of print_node_levels\<close>

lemma call_site_bound:
  fixes i k N len dv :: nat
  assumes "i < k" and "len dvd N" and "0 < N" and "N * k < 4294967296"
  shows "i div dv * len < 4294967296"
proof -
  have "len \<le> N" using assms(2,3) by (rule dvd_imp_le)
  have "i div dv * len \<le> i * len" by (intro mult_le_mono1) (rule div_le_dividend)
  also have "\<dots> \<le> i * N" using \<open>len \<le> N\<close> by (rule mult_le_mono2)
  also have "\<dots> \<le> k * N" using assms(1) by (intro mult_le_mono1) simp
  finally show ?thesis using assms(4) by (simp add: mult.commute)
qed

text \<open>
  For partitions cut by \<^verbatim>\<open>partition_coo\<close> from a square matrix of \<open>N > 0\<close> nodes, \<open>N\<close> a
  multiple of the unit count \<open>n\<close> and \<open>N * n\<close> below \<open>2^32\<close>, every algorithm and topology calls
  \<^verbatim>\<open>print_node_levels\<close> with \<open>total_nodes = N\<close>, a non-zero \<open>len_nl\<close> that divides it, a
  non-zero divisor, and no product \<open>(i / div) * len_nl\<close> that wraps.
\<close>

lemma levels_layout_sound:
  assumes n: "n \<noteq> 0" and sq: "num_cols coo = num_rows coo" and pos: "num_rows coo \<noteq> 0"
    and dvd: "unat n dvd unat (num_rows coo)"
    and fits: "unat (num_rows coo) * unat n < 4294967296"
    and shape: "partition_shape coo n prt = Some (nrows, ncols, col_div, orow, ocol)"
  shows "\<exists>len_nl dv. levels_layout alg prt nrows ncols n = Some (num_rows coo, len_nl, dv) \<and>
           len_nl \<noteq> 0 \<and> unat len_nl dvd unat (num_rows coo) \<and> dv \<noteq> 0 \<and>
           (\<forall>i<unat n. (i div unat dv) * unat len_nl < 4294967296)"
proof -
  let ?N = "unat (num_rows coo)" and ?k = "unat n"
  obtain q where q: "?N = ?k * q" using dvd by (auto elim: dvdE)
  have kpos: "0 < ?k" using n by (simp add: unat_gt_0)
  have Npos: "0 < ?N" using pos by (simp add: unat_gt_0)
  then have qpos: "0 < q" using q by (cases "q = 0") simp_all
  have uq: "unat (num_rows coo div n) = q" using q kpos by (simp add: unat_div)
  have "\<exists>len_nl dv. levels_layout alg prt nrows ncols n = Some (num_rows coo, len_nl, dv) \<and>
           len_nl \<noteq> 0 \<and> unat len_nl dvd ?N \<and> dv \<noteq> 0"
  proof (cases prt)
    case Row
    then have s: "nrows = num_rows coo div n" "ncols = num_rows coo"
      using shape n by (auto simp: partition_shape_def udiv_def sq)
    have len: "nrows \<noteq> 0" "unat nrows dvd ?N"
      using uq qpos q by (simp_all add: s u32_eq_0_iff)
    show ?thesis
    proof (cases "alg = TopDown")
      case True
      then show ?thesis using len by (simp add: levels_layout_def Row s(2))
    next
      case False
      then show ?thesis using pos by (simp add: levels_layout_def Row s(2))
    qed
  next
    case Col
    then have s: "nrows = num_rows coo" "ncols = num_rows coo div n" "col_div = n"
      using shape n by (auto simp: partition_shape_def udiv_def sq)
    have len: "ncols \<noteq> 0" "unat ncols dvd ?N"
      using uq qpos q by (simp_all add: s u32_eq_0_iff)
    show ?thesis
    proof (cases "alg = TopDown")
      case True
      then show ?thesis using pos n by (simp add: levels_layout_def Col s(1))
    next
      case False
      then show ?thesis using len by (simp add: levels_layout_def Col s(1))
    qed
  next
    case P2D
    from nearest_factors_spec [OF n]
    obtain row_div col_div' where nf: "nearest_factors n = Some (row_div, col_div')"
      "row_div \<noteq> 0" "col_div' \<noteq> 0" "unat row_div * unat col_div' = ?k" by blast
    let ?R = "unat row_div" and ?C = "unat col_div'"
    have Rpos: "0 < ?R" and Cpos: "0 < ?C" using nf(2,3) by (simp_all add: unat_gt_0)
    have s: "nrows = num_rows coo div row_div" "ncols = num_rows coo div col_div'"
      using shape nf by (auto simp: partition_shape_def udiv_def sq P2D)
    have NR: "?N = ?R * (?C * q)" and NC: "?N = ?C * (?R * q)"
      using q nf(4) [symmetric] by (simp_all add: mult_ac)
    have unr: "unat nrows = ?C * q" using Rpos by (simp add: s unat_div NR)
    have unc: "unat ncols = ?R * q" using Cpos by (simp add: s unat_div NC)
    have "?C * q \<le> ?R * (?C * q)" using Rpos by simp
    then have "unat nrows \<le> ?N" by (simp only: unr NR [symmetric])
    then have "unat nrows * ?k \<le> ?N * ?k" by (rule mult_le_mono1)
    then have small: "unat nrows * ?k < 4294967296" using fits by linarith
    have "unat (nrows * n) = ?C * q * ?k" using unat_mult_u32 [OF small] by (simp add: unr)
    then have "unat (nrows * n div col_div') = ?C * (q * ?k) div ?C"
      by (simp add: unat_div mult.assoc)
    also have "\<dots> = q * ?k" using Cpos by simp
    also have "\<dots> = ?N" using q by (simp add: mult.commute)
    finally have total: "nrows * n div col_div' = num_rows coo" by (simp add: word_unat_eq_iff)
    have lay: "udiv (nrows * n) col_div' = Some (num_rows coo)"
      using nf(3) total by (simp add: udiv_def)
    show ?thesis
    proof (cases "alg = TopDown")
      case True
      have "nrows \<noteq> 0" using unr Cpos qpos by (simp add: u32_eq_0_iff)
      moreover have "unat nrows dvd ?N" unfolding unr NR by simp
      ultimately show ?thesis using True nf(3) by (simp add: levels_layout_def P2D nf(1) lay)
    next
      case False
      have "ncols \<noteq> 0" using unc Rpos qpos by (simp add: u32_eq_0_iff)
      moreover have "unat ncols dvd ?N" unfolding unc NC by simp
      ultimately show ?thesis using False by (simp add: levels_layout_def P2D nf(1) lay)
    qed
  qed
  then obtain len_nl dv where l: "levels_layout alg prt nrows ncols n = Some (num_rows coo, len_nl, dv)"
    "len_nl \<noteq> 0" "unat len_nl dvd ?N" "dv \<noteq> 0" by blast
  have "\<forall>i<?k. (i div unat dv) * unat len_nl < 4294967296"
    using call_site_bound [OF _ l(3) Npos fits] by blast
  then show ?thesis using l by blast
qed

subsection \<open>Conversion to CSR: the four passes\<close>

lemma rd_map_upt: "i < N \<Longrightarrow> rd (map F [0..<N]) i = Some (F i)"
  by (simp add: rd_def)

lemma wr_map_upt:
  assumes "i < N"
  shows "wr (map F [0..<N]) i v = Some (map (\<lambda>r. if r = i then v else F r) [0..<N])"
proof -
  have "(map F [0..<N])[i := v] = map (\<lambda>r. if r = i then v else F r) [0..<N]"
    by (rule nth_equalityI) (auto simp: nth_list_update)
  then show ?thesis using assms by (simp add: wr_def)
qed

lemma rows_below_0 [simp]: "rows_below b m 0 = []"
  by (simp add: rows_below_def)

lemma rows_below_Suc:
  "length (rows_below b m (Suc r)) = length (rows_below b m r) + length (part_members b m r)"
proof (induction m)
  case 0
  show ?case by (simp add: rows_below_def part_members_def)
next
  case (Suc m)
  then show ?case by (auto simp: rows_below_def part_members_def)
qed

lemma rows_below_mono: "r \<le> r' \<Longrightarrow> length (rows_below b m r) \<le> length (rows_below b m r')"
proof (induction r')
  case 0
  then show ?case by simp
next
  case (Suc r')
  show ?case
  proof (cases "r = Suc r'")
    case True
    then show ?thesis by simp
  next
    case False
    then have "r \<le> r'" using Suc.prems by simp
    then show ?thesis using Suc.IH by (simp add: rows_below_Suc)
  qed
qed

lemma rows_below_all:
  assumes "\<forall>j<m. unat (b j) < R"
  shows "length (rows_below b m R) = m"
proof -
  have "filter (\<lambda>j. unat (b j) < R) [0..<m] = [0..<m]"
    using assms by (intro filter_True) simp
  then show ?thesis by (simp add: rows_below_def)
qed

lemma rows_below_le: "length (rows_below b m r) \<le> m"
  unfolding rows_below_def using length_filter_le [of _ "[0..<m]"] by simp

lemma part_members_none:
  assumes "\<forall>j<k. unat (b j) \<noteq> r"
  shows "part_members b k r = []"
  using assms by (simp add: part_members_def filter_empty_conv)

text \<open>The slot of an edge lies in the range of its row, and no two edges share a slot.\<close>

lemma slot_in_row:
  assumes "j < m"
  shows "length (rows_below b m (unat (b j))) \<le> slot b m j"
    and "slot b m j < length (rows_below b m (Suc (unat (b j))))"
proof -
  show "length (rows_below b m (unat (b j))) \<le> slot b m j" by (simp add: slot_def)
  have "length (part_members b j (unat (b j))) < length (part_members b m (unat (b j)))"
    using assms by (rule part_members_less) simp
  then show "slot b m j < length (rows_below b m (Suc (unat (b j))))"
    by (simp add: slot_def rows_below_Suc)
qed

lemma slot_less:
  assumes "j < m" and "\<forall>j<m. unat (b j) < R"
  shows "slot b m j < m"
proof -
  have "Suc (unat (b j)) \<le> R" using assms by (simp add: Suc_le_eq)
  then have "length (rows_below b m (Suc (unat (b j)))) \<le> length (rows_below b m R)"
    by (rule rows_below_mono)
  then show ?thesis using slot_in_row(2) [OF assms(1), where b = b] rows_below_all [OF assms(2)] by simp
qed

lemma slot_distinct:
  assumes "i < j" and "j < m"
  shows "slot b m i \<noteq> slot b m j"
proof -
  have i: "i < m" using assms by simp
  consider "unat (b i) = unat (b j)" | "unat (b i) < unat (b j)" | "unat (b j) < unat (b i)"
    by linarith
  then show ?thesis
  proof cases
    case 1
    have "length (part_members b i (unat (b i))) < length (part_members b j (unat (b i)))"
      using assms(1) by (rule part_members_less) simp
    then show ?thesis using 1 by (simp add: slot_def)
  next
    case 2
    then have "Suc (unat (b i)) \<le> unat (b j)" by simp
    then have "length (rows_below b m (Suc (unat (b i)))) \<le> length (rows_below b m (unat (b j)))"
      by (rule rows_below_mono)
    then show ?thesis using slot_in_row(2) [OF i, where b = b] slot_in_row(1) [OF assms(2), where b = b] by simp
  next
    case 3
    then have "Suc (unat (b j)) \<le> unat (b i)" by simp
    then have "length (rows_below b m (Suc (unat (b j)))) \<le> length (rows_below b m (unat (b i)))"
      by (rule rows_below_mono)
    then show ?thesis using slot_in_row(2) [OF assms(2), where b = b] slot_in_row(1) [OF i, where b = b] by simp
  qed
qed

lemma scattered_length [simp]: "length (scattered b cs m k) = m"
  by (induction k) (simp_all add: scattered_def)

lemma scattered_Suc:
  "scattered b cs m (Suc k) = (scattered b cs m k)[slot b m k := cs ! k]"
  by (simp add: scattered_def)

lemma scattered_nth:
  assumes "k \<le> m" and "\<forall>j<m. unat (b j) < R" and "j < k"
  shows "scattered b cs m k ! slot b m j = cs ! j"
  using assms(1,3)
proof (induction k)
  case 0
  then show ?case by simp
next
  case (Suc k)
  show ?case
  proof (cases "j = k")
    case True
    have "slot b m k < m" using Suc.prems(1) assms(2) by (intro slot_less) simp_all
    then show ?thesis using True by (simp add: scattered_Suc)
  next
    case False
    then have jk: "j < k" using Suc.prems by simp
    then have "slot b m j \<noteq> slot b m k" using Suc.prems(1) by (intro slot_distinct) simp_all
    then show ?thesis using Suc.IH jk Suc.prems(1) by (simp add: scattered_Suc)
  qed
qed

text \<open>The slots of the edges of row \<open>r\<close>, in the order of the input, are the range of the row.\<close>

lemma part_members_ranks:
  "map (\<lambda>j. length (part_members b j r)) (part_members b k r) = [0..<length (part_members b k r)]"
  by (induction k) (simp_all add: part_members_Suc)

lemma row_slots:
  "map (slot b m) (part_members b m r) =
     [length (rows_below b m r)..<length (rows_below b m (Suc r))]"
proof -
  have "map (slot b m) (part_members b m r) =
        map (\<lambda>j. length (rows_below b m r) + length (part_members b j r)) (part_members b m r)"
    by (rule map_cong) (auto simp: slot_def dest: part_members_in)
  also have "\<dots> = map (\<lambda>i. length (rows_below b m r) + i)
                     (map (\<lambda>j. length (part_members b j r)) (part_members b m r))"
    by (simp add: comp_def)
  also have "\<dots> = map (\<lambda>i. length (rows_below b m r) + i) [0..<length (part_members b m r)]"
    by (simp only: part_members_ranks)
  also have "\<dots> = [length (rows_below b m r)..<length (rows_below b m (Suc r))]"
    by (simp add: rows_below_Suc map_add_upt add.commute)
  finally show ?thesis .
qed

lemma histogram_pass:
  assumes rows: "\<forall>i<m. unat (rs ! i) < N" and len: "m \<le> length rs" and k: "k \<le> m"
  shows "for_loop [0..<k] (\<lambda>i rp. do {
           row_idx \<leftarrow> rd rs i;
           c \<leftarrow> rd rp (unat row_idx);
           wr rp (unat row_idx) (c + 1) }) (replicate N (0::u32)) =
         Some (map (\<lambda>r. of_nat (length (part_members ((!) rs) k r))) [0..<N])"
  using k
proof (induction k)
  case 0
  show ?case by (simp add: map_replicate_const)
next
  case (Suc k)
  let ?F = "\<lambda>k r. of_nat (length (part_members ((!) rs) k r)) :: u32"
  from Suc have IH: "for_loop [0..<k] (\<lambda>i rp. do {
           row_idx \<leftarrow> rd rs i;
           c \<leftarrow> rd rp (unat row_idx);
           wr rp (unat row_idx) (c + 1) }) (replicate N 0) = Some (map (?F k) [0..<N])"
    and k: "k < m" by simp_all
  have rk: "unat (rs ! k) < N" and kl: "k < length rs" using rows k len by simp_all
  have "map (\<lambda>r. if r = unat (rs ! k) then ?F k (unat (rs ! k)) + 1 else ?F k r) [0..<N] =
        map (?F (Suc k)) [0..<N]"
    by (rule map_cong) (simp_all add: part_members_Suc)
  then show ?case
    unfolding for_loop_upt_Suc IH option.case
    using kl by (simp add: rd_map_upt [OF rk] wr_map_upt [OF rk])
qed

lemma prefix_pass:
  assumes "k \<le> R" and "R < N"
  shows "for_loop [0..<k] (\<lambda>row_idx (sum_before_next_row, rp). do {
           c \<leftarrow> rd rp row_idx;
           rp' \<leftarrow> wr rp row_idx sum_before_next_row;
           Some (sum_before_next_row + c, rp') })
           (0::u32, map (\<lambda>r. of_nat (length (part_members b m r))) [0..<N]) =
         Some (of_nat (length (rows_below b m k)),
               map (\<lambda>r. if r < k then of_nat (length (rows_below b m r))
                         else of_nat (length (part_members b m r))) [0..<N])"
  using assms(1)
proof (induction k)
  case 0
  show ?case by simp
next
  case (Suc k)
  let ?G = "\<lambda>k r. if r < k then of_nat (length (rows_below b m r))
                   else of_nat (length (part_members b m r)) :: u32"
  from Suc have IH: "for_loop [0..<k] (\<lambda>row_idx (sum_before_next_row, rp). do {
           c \<leftarrow> rd rp row_idx;
           rp' \<leftarrow> wr rp row_idx sum_before_next_row;
           Some (sum_before_next_row + c, rp') })
           (0, map (\<lambda>r. of_nat (length (part_members b m r))) [0..<N]) =
         Some (of_nat (length (rows_below b m k)), map (?G k) [0..<N])"
    and k: "k < R" by simp_all
  have kN: "k < N" using k assms(2) by simp
  have "map (\<lambda>r. if r = k then of_nat (length (rows_below b m k)) else ?G k r) [0..<N] =
        map (?G (Suc k)) [0..<N]"
    by (rule map_cong) (auto simp: less_Suc_eq)
  then show ?case
    unfolding for_loop_upt_Suc IH option.case prod.case
    by (simp add: rd_map_upt [OF kN] wr_map_upt [OF kN] rows_below_Suc)
qed

lemma scatter_pass:
  assumes rows: "\<forall>i<m. unat (rs ! i) < R" and RN: "R < N"
    and len: "m \<le> length rs" "m \<le> length cs" and m: "m < 4294967296" and k: "k \<le> m"
  shows "for_loop [0..<k] (\<lambda>i (rp, ci). do {
           row_idx \<leftarrow> rd rs i;
           nnzIdx \<leftarrow> rd rp (unat row_idx);
           rp' \<leftarrow> wr rp (unat row_idx) (nnzIdx + 1);
           c \<leftarrow> rd cs i;
           ci' \<leftarrow> wr ci (unat nnzIdx) c;
           Some (rp', ci') })
           (map (\<lambda>r. of_nat (length (rows_below ((!) rs) m r)) :: u32) [0..<N], replicate m 0) =
         Some (map (\<lambda>r. of_nat (length (rows_below ((!) rs) m r) +
                                  length (part_members ((!) rs) k r))) [0..<N],
               scattered ((!) rs) cs m k)"
  using k
proof (induction k)
  case 0
  show ?case by (simp add: scattered_def)
next
  case (Suc k)
  let ?b = "(!) rs"
  let ?H = "\<lambda>k r. of_nat (length (rows_below ?b m r) + length (part_members ?b k r)) :: u32"
  have k: "k < m" using Suc.prems by simp
  then have "k \<le> m" by simp
  note IH = Suc.IH [OF this]
  have rk: "unat (rs ! k) < N" using rows k RN by (meson less_trans)
  have kl: "k < length rs" "k < length cs" using k len by simp_all
  have sl: "slot ?b m k < m" using k rows by (intro slot_less) simp_all
  have "?H k (unat (rs ! k)) = of_nat (slot ?b m k)" by (simp add: slot_def)
  moreover have "unat (of_nat (slot ?b m k) :: u32) = slot ?b m k"
    using sl m by (intro unat_of_nat_u32) simp
  ultimately have nnz: "unat (?H k (unat (rs ! k))) = slot ?b m k" by simp
  have rp: "map (\<lambda>r. if r = unat (rs ! k) then ?H k (unat (rs ! k)) + 1 else ?H k r) [0..<N] =
        map (?H (Suc k)) [0..<N]"
    by (rule map_cong) (simp_all add: part_members_Suc)
  have ci: "wr (scattered ?b cs m k) (slot ?b m k) (cs ! k) = Some (scattered ?b cs m (Suc k))"
    using sl by (simp add: scattered_Suc)
  show ?case
    unfolding for_loop_upt_Suc IH option.case prod.case
    using kl by (simp add: rd_map_upt [OF rk] wr_map_upt [OF rk] nnz rp ci del: of_nat_add)
qed

lemma restore_row_ptrs_shift:
  assumes "unat w = k" and "k < length rp"
  shows "restore_row_ptrs w rp =
           Some (map (\<lambda>r. if 1 \<le> r \<and> r \<le> k then rp ! (r - 1) else rp ! r) [0..<length rp])"
  using assms
proof (induction k arbitrary: w rp)
  case 0
  then have "w = 0" by (simp add: u32_eq_0_iff)
  moreover have "(\<lambda>r. if 1 \<le> r \<and> r \<le> 0 then rp ! (r - 1) else rp ! r) = (!) rp"
    by (rule ext) simp
  ultimately show ?case by (simp only: restore_row_ptrs.simps [of 0] map_nth) simp
next
  case (Suc k)
  then have w: "w \<noteq> 0" by (auto simp: u32_eq_0_iff)
  then have pos: "0 < w" by (simp add: word_greater_zero_iff)
  have u: "unat (w - 1) = k" using Suc.prems(1) w by (simp add: unat_minus_one)
  let ?rp' = "rp[Suc k := rp ! k]"
  have step: "restore_row_ptrs w rp = restore_row_ptrs (w - 1) ?rp'"
    using pos Suc.prems u by (simp add: restore_row_ptrs.simps [of w])
  have "restore_row_ptrs (w - 1) ?rp' =
          Some (map (\<lambda>r. if 1 \<le> r \<and> r \<le> k then ?rp' ! (r - 1) else ?rp' ! r) [0..<length ?rp'])"
    using u Suc.prems(2) by (intro Suc.IH) simp_all
  also have "map (\<lambda>r. if 1 \<le> r \<and> r \<le> k then ?rp' ! (r - 1) else ?rp' ! r) [0..<length ?rp'] =
             map (\<lambda>r. if 1 \<le> r \<and> r \<le> Suc k then rp ! (r - 1) else rp ! r) [0..<length rp]"
    using Suc.prems(2) by (intro nth_equalityI) (auto simp: nth_list_update)
  finally show ?case using step by simp
qed

subsection \<open>Conversion to CSR: the result and its edges\<close>

lemma coo_to_csr_run:
  assumes R: "num_rows coo \<noteq> 0" and nowrap: "unat (num_rows coo) < 4294967295"
    and lens: "length (row_idxs coo) = unat (num_edges coo)"
              "length (col_idxs coo) = unat (num_edges coo)"
    and rows: "\<forall>i<unat (num_edges coo). row_idxs coo ! i < num_rows coo"
  shows "coo_to_csr coo =
           Some \<lparr>csr_num_rows = num_rows coo, csr_num_cols = num_cols coo,
                 csr_num_edges = num_edges coo,
                 row_ptrs = map (\<lambda>r. of_nat (length (rows_below ((!) (row_idxs coo))
                                                    (unat (num_edges coo)) r)))
                                [0..<Suc (unat (num_rows coo))],
                 csr_col_idxs = scattered ((!) (row_idxs coo)) (col_idxs coo)
                                  (unat (num_edges coo)) (unat (num_edges coo))\<rparr>"
proof -
  let ?rs = "row_idxs coo" and ?cs = "col_idxs coo"
  let ?m = "unat (num_edges coo)" and ?R = "unat (num_rows coo)"
  let ?N = "unat (num_rows coo + 1)"
  let ?b = "(!) ?rs"
  let ?C = "\<lambda>r. of_nat (length (part_members ?b ?m r)) :: u32"
  let ?S = "\<lambda>r. of_nat (length (rows_below ?b ?m r)) :: u32"
  let ?G = "\<lambda>r. if r < ?R then of_nat (length (rows_below ?b ?m r))
                 else of_nat (length (part_members ?b ?m r)) :: u32"
  let ?H = "\<lambda>r. of_nat (length (rows_below ?b ?m r) + length (part_members ?b ?m r)) :: u32"
  have N: "?N = Suc ?R" using unat_Suc_u32 [OF nowrap] by simp
  have Rpos: "0 < ?R" using R by (simp add: unat_gt_0)
  have m: "?m < 4294967296" by (rule unat_u32_bound)
  have rowsR: "\<forall>i<?m. unat (?rs ! i) < ?R" using rows by (simp add: u32_less_iff)
  then have rowsN: "\<forall>i<?m. unat (?rs ! i) < ?N" unfolding N by (simp add: less_Suc_eq)
  have RN: "?R < ?N" unfolding N by simp
  have noR: "part_members ?b ?m ?R = []"
    using rowsR by (intro part_members_none) auto
  have allR: "length (rows_below ?b ?m ?R) = ?m"
    using rowsR by (rule rows_below_all)
  have h1: "for_loop [0..<?m] (\<lambda>i rp. do {
           row_idx \<leftarrow> rd ?rs i;
           c \<leftarrow> rd rp (unat row_idx);
           wr rp (unat row_idx) (c + 1) }) (replicate ?N 0) = Some (map ?C [0..<?N])"
    using rowsN by (rule histogram_pass) (simp_all add: lens)
  have h2: "for_loop [0..<?R] (\<lambda>row_idx (sum_before_next_row, rp). do {
           c \<leftarrow> rd rp row_idx;
           rp' \<leftarrow> wr rp row_idx sum_before_next_row;
           Some (sum_before_next_row + c, rp') }) (0, map ?C [0..<?N]) =
         Some (of_nat (length (rows_below ?b ?m ?R)), map ?G [0..<?N])"
    using RN by (intro prefix_pass) simp_all
  have h3: "wr (map ?G [0..<?N]) ?R (of_nat (length (rows_below ?b ?m ?R))) = Some (map ?S [0..<?N])"
  proof -
    have "map (\<lambda>r. if r = ?R then of_nat (length (rows_below ?b ?m ?R)) else ?G r) [0..<?N] =
          map ?S [0..<?N]"
      unfolding N by (rule map_cong) (auto simp: less_Suc_eq)
    then show ?thesis by (simp only: wr_map_upt [OF RN])
  qed
  have h4: "for_loop [0..<?m] (\<lambda>i (rp, ci). do {
           row_idx \<leftarrow> rd ?rs i;
           nnzIdx \<leftarrow> rd rp (unat row_idx);
           rp' \<leftarrow> wr rp (unat row_idx) (nnzIdx + 1);
           c \<leftarrow> rd ?cs i;
           ci' \<leftarrow> wr ci (unat nnzIdx) c;
           Some (rp', ci') }) (map ?S [0..<?N], replicate ?m 0) =
         Some (map ?H [0..<?N], scattered ?b ?cs ?m ?m)"
    using rowsR RN by (rule scatter_pass) (simp_all add: lens m)
  have u1: "unat (num_rows coo - 1) = ?R - 1" using R by (simp add: unat_minus_one)
  have h5: "restore_row_ptrs (num_rows coo - 1) (map ?H [0..<?N]) =
         Some (map (\<lambda>r. if 1 \<le> r \<and> r \<le> ?R - 1 then map ?H [0..<?N] ! (r - 1)
                         else map ?H [0..<?N] ! r) [0..<length (map ?H [0..<?N])])"
    using u1 by (rule restore_row_ptrs_shift) (simp add: N)
  have h6: "wr (map (\<lambda>r. if 1 \<le> r \<and> r \<le> ?R - 1 then map ?H [0..<?N] ! (r - 1)
                         else map ?H [0..<?N] ! r) [0..<length (map ?H [0..<?N])]) 0 0 =
         Some (map ?S [0..<Suc ?R])"
  proof -
    have "(map (\<lambda>r. if 1 \<le> r \<and> r \<le> ?R - 1 then map ?H [0..<?N] ! (r - 1)
                         else map ?H [0..<?N] ! r) [0..<length (map ?H [0..<?N])])[0 := 0] =
          map ?S [0..<Suc ?R]"
    proof (rule nth_equalityI)
      show "length ((map (\<lambda>r. if 1 \<le> r \<and> r \<le> ?R - 1 then map ?H [0..<?N] ! (r - 1)
                         else map ?H [0..<?N] ! r) [0..<length (map ?H [0..<?N])])[0 := 0]) =
            length (map ?S [0..<Suc ?R])"
        by (simp add: N)
    next
      fix r
      assume "r < length ((map (\<lambda>r. if 1 \<le> r \<and> r \<le> ?R - 1 then map ?H [0..<?N] ! (r - 1)
                         else map ?H [0..<?N] ! r) [0..<length (map ?H [0..<?N])])[0 := 0])"
      then have r: "r < Suc ?R" by (simp add: N)
      consider "r = 0" | "1 \<le> r" "r \<le> ?R - 1" | "r = ?R" using r Rpos by linarith
      then show "(map (\<lambda>r. if 1 \<le> r \<and> r \<le> ?R - 1 then map ?H [0..<?N] ! (r - 1)
                         else map ?H [0..<?N] ! r) [0..<length (map ?H [0..<?N])])[0 := 0] ! r =
            map ?S [0..<Suc ?R] ! r"
      proof cases
        case 1
        then show ?thesis by (simp add: N del: upt_Suc)
      next
        case 2
        then have "Suc (r - 1) = r" by simp
        then have "length (rows_below ?b ?m r) =
                   length (rows_below ?b ?m (r - 1)) + length (part_members ?b ?m (r - 1))"
          using rows_below_Suc [of ?b ?m "r - 1"] by simp
        moreover have "[0..<Suc ?R] ! (r - 1) = r - 1" using r by (intro nth_upt [THEN trans]) simp_all
        ultimately show ?thesis using 2 r by (simp add: N del: of_nat_add upt_Suc)
      next
        case 3
        moreover have "\<not> ?R \<le> ?R - 1" using Rpos by linarith
        ultimately show ?thesis using Rpos by (simp add: N noR del: of_nat_add upt_Suc)
      qed
    qed
    then show ?thesis by (simp add: wr_def N del: upt_Suc)
  qed
  show ?thesis
    unfolding coo_to_csr_def Let_def
    by (simp only: h1 h2 h3 h4 h5 h6 Option.bind.simps prod.case)
qed

lemma mset_concat_upt:
  "mset (concat (map f [0..<n])) = (\<Sum>r<n. mset (f r))"
  by (induction n) simp_all

text \<open>
  C6, as the code has it. For every edge list with at least one row and fewer than
  \<open>2^32 - 1\<close> rows, whose index arrays hold \<^verbatim>\<open>num_edges\<close> entries and whose row indices are all
  below \<^verbatim>\<open>num_rows\<close>, \<^verbatim>\<open>coo_to_csr\<close> succeeds; the row pointers start at 0 and end at the
  number of edges, and the edges read back from the CSR arrays, row \<open>r\<close> owning the slots
  from \<open>row_ptrs[r]\<close> up to \<open>row_ptrs[r+1]\<close>, are the edges of the input as a multiset.
\<close>

theorem coo_to_csr_round_trip:
  assumes "num_rows coo \<noteq> 0" and "unat (num_rows coo) < 4294967295"
    and "length (row_idxs coo) = unat (num_edges coo)"
    and "length (col_idxs coo) = unat (num_edges coo)"
    and "list_all (\<lambda>r. r < num_rows coo) (row_idxs coo)"
  shows "\<exists>csr. coo_to_csr coo = Some csr \<and>
           csr_num_rows csr = num_rows coo \<and>
           length (row_ptrs csr) = Suc (unat (num_rows coo)) \<and>
           length (csr_col_idxs csr) = unat (num_edges coo) \<and>
           row_ptrs csr ! 0 = 0 \<and>
           row_ptrs csr ! unat (num_rows coo) = num_edges coo \<and>
           mset (csr_edges csr) = mset (zip (row_idxs coo) (col_idxs coo))"
proof -
  let ?rs = "row_idxs coo" and ?cs = "col_idxs coo"
  let ?m = "unat (num_edges coo)" and ?R = "unat (num_rows coo)"
  let ?b = "(!) ?rs"
  let ?S = "\<lambda>r. of_nat (length (rows_below ?b ?m r)) :: u32"
  let ?ci = "scattered ?b ?cs ?m ?m"
  let ?csr = "\<lparr>csr_num_rows = num_rows coo, csr_num_cols = num_cols coo,
                 csr_num_edges = num_edges coo, row_ptrs = map ?S [0..<Suc ?R],
                 csr_col_idxs = ?ci\<rparr>"
  have rows: "\<forall>i<?m. ?rs ! i < num_rows coo"
    using assms(3,5) by (simp add: list_all_length)
  then have rowsR: "\<forall>i<?m. unat (?rs ! i) < ?R" by (simp add: u32_less_iff)
  have run: "coo_to_csr coo = Some ?csr"
    using assms(1,2,3,4) rows by (rule coo_to_csr_run)
  have m: "?m < 4294967296" by (rule unat_u32_bound)
  have uS: "unat (?S r) = length (rows_below ?b ?m r)" for r
    using rows_below_le [of ?b ?m r] m by (intro unat_of_nat_u32) simp
  have last: "?S ?R = num_edges coo"
    using rows_below_all [OF rowsR] by simp
  have row: "map (\<lambda>k. (of_nat r, ?ci ! k)) [unat (?S r)..<unat (?S (Suc r))] =
             map (\<lambda>j. (?rs ! j, ?cs ! j)) (part_members ?b ?m r)" for r
  proof -
    have "map (\<lambda>k. (of_nat r :: u32, ?ci ! k)) [unat (?S r)..<unat (?S (Suc r))] =
          map (\<lambda>k. (of_nat r, ?ci ! k)) (map (slot ?b ?m) (part_members ?b ?m r))"
      by (simp only: uS row_slots)
    also have "\<dots> = map (\<lambda>j. (of_nat r, ?ci ! slot ?b ?m j)) (part_members ?b ?m r)"
      by (simp add: comp_def)
    also have "\<dots> = map (\<lambda>j. (?rs ! j, ?cs ! j)) (part_members ?b ?m r)"
    proof (rule map_cong)
      fix j assume "j \<in> set (part_members ?b ?m r)"
      then have j: "j < ?m" and rj: "unat (?rs ! j) = r" using part_members_in by auto
      have "?ci ! slot ?b ?m j = ?cs ! j"
        using rowsR j by (intro scattered_nth [where R = ?R]) simp_all
      moreover have "(of_nat r :: u32) = ?rs ! j" using rj by auto
      ultimately show "(of_nat r, ?ci ! slot ?b ?m j) = (?rs ! j, ?cs ! j)" by simp
    qed simp
    finally show ?thesis .
  qed
  have "csr_edges ?csr =
        concat (map (\<lambda>r. map (\<lambda>k. (of_nat r, ?ci ! k)) [unat (?S r)..<unat (?S (Suc r))]) [0..<?R])"
    unfolding csr_edges_def
    by (rule arg_cong [where f = concat], rule map_cong) (simp_all add: nth_append del: upt_Suc)
  also have "\<dots> = concat (map (\<lambda>r. map (\<lambda>j. (?rs ! j, ?cs ! j)) (part_members ?b ?m r)) [0..<?R])"
    by (simp only: row)
  finally have "mset (csr_edges ?csr) =
        (\<Sum>r<?R. mset (map (\<lambda>j. (?rs ! j, ?cs ! j)) (part_members ?b ?m r)))"
    by (simp only: mset_concat_upt)
  also have "\<dots> = mset (map (\<lambda>j. (?rs ! j, ?cs ! j)) [0..<?m])"
    using rowsR by (intro sum_part_members) simp
  also have "\<dots> = mset (zip ?rs ?cs)"
    using zip_as_map_nth [OF assms(3,4)] by simp
  finally have edges: "mset (csr_edges ?csr) = mset (zip ?rs ?cs)" .
  have first: "row_ptrs ?csr ! 0 = 0" by (simp add: nth_append del: upt_Suc)
  have lastp: "row_ptrs ?csr ! ?R = num_edges coo"
    using last by (simp add: nth_append del: upt_Suc of_nat_add)
  show ?thesis
    apply (rule exI [where x = ?csr])
    apply (intro conjI)
          apply (rule run)
         apply simp
        apply simp
       apply simp
      apply (rule first)
     apply (rule lastp)
    apply (rule edges)
    done
qed

theorem coo_to_csr_round_trip_witness:
  "(4::u32) \<noteq> 0 \<and> unat (4::u32) < 4294967295 \<and>
   length [3, 0, 1, 0, 3::u32] = unat (5::u32) \<and> length [1, 2, 3, 3, 0::u32] = unat (5::u32) \<and>
   list_all (\<lambda>r. r < (4::u32)) [3, 0, 1, 0, 3] \<and>
   coo_to_csr \<lparr>num_rows = 4, num_cols = 4, num_edges = 5,
                row_idxs = [3, 0, 1, 0, 3], col_idxs = [1, 2, 3, 3, 0]\<rparr> =
     Some \<lparr>csr_num_rows = 4, csr_num_cols = 4, csr_num_edges = 5,
           row_ptrs = [0, 2, 3, 3, 5], csr_col_idxs = [2, 3, 3, 1, 0]\<rparr> \<and>
   csr_edges \<lparr>csr_num_rows = 4, csr_num_cols = 4, csr_num_edges = 5,
               row_ptrs = [0, 2, 3, 3, 5], csr_col_idxs = [2, 3, 3, 1, 0]\<rparr> =
     [(0, 2), (0, 3), (1, 3), (3, 1), (3, 0)]"
proof -
  have run: "coo_to_csr \<lparr>num_rows = 4, num_cols = 4, num_edges = 5,
                row_idxs = [3, 0, 1, 0, 3], col_idxs = [1, 2, 3, 3, 0]\<rparr> =
     Some \<lparr>csr_num_rows = 4, csr_num_cols = 4, csr_num_edges = 5,
           row_ptrs = [0, 2, 3, 3, 5], csr_col_idxs = [2, 3, 3, 1, 0]\<rparr>"
    by code_simp
  have edges: "csr_edges \<lparr>csr_num_rows = 4, csr_num_cols = 4, csr_num_edges = 5,
               row_ptrs = [0, 2, 3, 3, 5], csr_col_idxs = [2, 3, 3, 1, 0]\<rparr> =
     [(0, 2), (0, 3), (1, 3), (3, 1), (3, 0)]"
    by code_simp
  show ?thesis
    using coo_to_csr_round_trip [of "\<lparr>num_rows = 4, num_cols = 4, num_edges = 5,
                row_idxs = [3, 0, 1, 0, 3], col_idxs = [1, 2, 3, 3, 0]\<rparr>"] run edges
    by simp
qed

text \<open>
  Outside these bounds the conversion leaves its arrays, so the round trip does not hold
  for every edge list. Without rows, the loop that restores the row pointers starts at
  \<^verbatim>\<open>num_rows - 1\<close>, which wraps around to \<open>2^32 - 1\<close>, and its first step reads
  \<^verbatim>\<open>row_ptrs[4294967294]\<close> of an array of one element. With \<open>2^32 - 1\<close> rows,
  \<^verbatim>\<open>num_rows + 1\<close> wraps around to 0 and the row pointers have no element at all. In both
  cases the empty edge list has all its (no) row indices below \<^verbatim>\<open>num_rows\<close>.
\<close>

theorem coo_to_csr_counterexample:
  "coo_to_csr \<lparr>num_rows = 0, num_cols = 0, num_edges = 0, row_idxs = [], col_idxs = []\<rparr> = None \<and>
   coo_to_csr \<lparr>num_rows = 4294967295, num_cols = 0, num_edges = 0,
                row_idxs = [], col_idxs = []\<rparr> = None"
proof -
  have start: "(- 1 :: u32) = 4294967295" by simp
  have pos: "(0::u32) < 4294967295" by simp
  have idx: "unat (4294967295 - 1 :: u32) = 4294967294" by simp
  have "rd [0::u32] 4294967294 = None" by (simp add: rd_def)
  then have "restore_row_ptrs 4294967295 [0] = None"
    by (simp only: restore_row_ptrs.simps [of 4294967295 "[0]"] pos idx if_True Option.bind.simps)
  then have "restore_row_ptrs (- 1) [0] = None" by (simp only: start)
  then have none: "coo_to_csr \<lparr>num_rows = 0, num_cols = 0, num_edges = 0,
                                row_idxs = [], col_idxs = []\<rparr> = None"
    by (simp add: coo_to_csr_def Let_def wr_def)
  have first: "[0..<4294967295] = 0 # [Suc 0..<4294967295]" by (rule upt_conv_Cons) simp
  have wrap: "unat (4294967295 + 1 :: u32) = 0" by simp
  have "for_loop [0..<4294967295] (\<lambda>row_idx (sum_before_next_row, rp). do {
           c \<leftarrow> rd rp row_idx;
           rp' \<leftarrow> wr rp row_idx sum_before_next_row;
           Some (sum_before_next_row + c, rp') }) (0::u32, []) = None"
    unfolding first by (simp add: rd_def)
  then have full: "coo_to_csr \<lparr>num_rows = 4294967295, num_cols = 0, num_edges = 0,
                                row_idxs = [], col_idxs = []\<rparr> = None"
    unfolding coo_to_csr_def Let_def
    by (simp only: COO.simps wrap unat_0 replicate_0 upt_0 for_loop.simps Option.bind.simps
        upt_rec [of 0 0] if_False less_irrefl) simp
  show ?thesis using none full by simp
qed

end
